theory Spec2Isabelle
  imports Complex_Main
begin

section \<open>Graph model\<close>

text \<open>
  The graph is the JSON document held in \<open>graphData\<close>: a list of nodes (identifier and
  coordinates) and a list of links (two endpoint identifiers and a distance). City
  identifiers are strings. JavaScript numbers are modelled as exact real numbers: rounding
  of floating-point arithmetic is not part of the model.
\<close>

type_synonym city = string

record node =
  node_id :: city
  lat :: real
  lon :: real

record link =
  source :: city
  target :: city
  distance :: real

record graph =
  nodes :: "node list"
  links :: "link list"

text \<open>\<open>getNodeById\<close>: \<open>graphData.nodes.find(node => node.id === id)\<close>; \<open>None\<close> is
  JavaScript's \<open>undefined\<close>.\<close>

definition getNodeById :: "graph \<Rightarrow> city \<Rightarrow> node option" where
  "getNodeById g i = find (\<lambda>n. node_id n = i) (nodes g)"

text \<open>\<open>getLinkByNodes\<close>: the first link joining the two identifiers, in either order.\<close>

definition getLinkByNodes :: "graph \<Rightarrow> city \<Rightarrow> city \<Rightarrow> link option" where
  "getLinkByNodes g sourceId targetId =
     find (\<lambda>l. (source l = sourceId \<and> target l = targetId) \<or>
               (source l = targetId \<and> target l = sourceId)) (links g)"

text \<open>A neighbour entry \<open>{id, distance}\<close> is a pair.\<close>

type_synonym neighbor = "city \<times> real"

text \<open>\<open>getNeighbors\<close>: one entry per link that has the city as an endpoint, in the order
  of the links; a link from a city to itself gives one entry (the \<open>else if\<close>).\<close>

fun neighbors_of :: "link list \<Rightarrow> city \<Rightarrow> neighbor list" where
  "neighbors_of [] cityId = []"
| "neighbors_of (l # ls) cityId =
     (if source l = cityId then (target l, distance l) # neighbors_of ls cityId
      else if target l = cityId then (source l, distance l) # neighbors_of ls cityId
      else neighbors_of ls cityId)"

definition getNeighbors :: "graph \<Rightarrow> city \<Rightarrow> neighbor list" where
  "getNeighbors g cityId = neighbors_of (links g) cityId"

section \<open>Path cost\<close>

text \<open>\<open>calculatePathCost\<close>: the loop over the consecutive pairs of the path, with the
  accumulator \<open>totalCost\<close>. A pair without a link is skipped by \<open>if (link)\<close>.\<close>

fun calculatePathCost_loop :: "graph \<Rightarrow> city list \<Rightarrow> real \<Rightarrow> real" where
  "calculatePathCost_loop g (a # b # rest) totalCost =
     calculatePathCost_loop g (b # rest)
       (case getLinkByNodes g a b of
          Some l \<Rightarrow> totalCost + distance l
        | None \<Rightarrow> totalCost)"
| "calculatePathCost_loop g [a] totalCost = totalCost"
| "calculatePathCost_loop g [] totalCost = totalCost"

definition calculatePathCost :: "graph \<Rightarrow> city list \<Rightarrow> real" where
  "calculatePathCost g path = calculatePathCost_loop g path 0"

text \<open>The distance the cost function adds for one consecutive pair.\<close>

definition pair_cost :: "graph \<Rightarrow> city \<times> city \<Rightarrow> real" where
  "pair_cost g ab = (case getLinkByNodes g (fst ab) (snd ab) of
                       Some l \<Rightarrow> distance l
                     | None \<Rightarrow> 0)"

text \<open>A small graph used in examples: roads A-B 10, B-C 5, A-C 20, and a city D without
  roads; all four cities at the same coordinates.\<close>

definition fixture :: graph where
  "fixture =
     \<lparr>nodes = [\<lparr>node_id = ''A'', lat = 0, lon = 0\<rparr>, \<lparr>node_id = ''B'', lat = 0, lon = 0\<rparr>,
               \<lparr>node_id = ''C'', lat = 0, lon = 0\<rparr>, \<lparr>node_id = ''D'', lat = 0, lon = 0\<rparr>],
      links = [\<lparr>source = ''A'', target = ''B'', distance = 10\<rparr>,
               \<lparr>source = ''B'', target = ''C'', distance = 5\<rparr>,
               \<lparr>source = ''A'', target = ''C'', distance = 20\<rparr>]\<rparr>"

section \<open>Heuristic\<close>

text \<open>A JavaScript number that may be \<open>Infinity\<close>. The order is that of \<open><\<close> on such
  numbers, with \<open>Infinity\<close> on top.\<close>

datatype hnum = Fin real | Infinity

instantiation hnum :: linorder
begin

fun less_eq_hnum :: "hnum \<Rightarrow> hnum \<Rightarrow> bool" where
  "less_eq_hnum (Fin a) (Fin b) = (a \<le> b)"
| "less_eq_hnum (Fin a) Infinity = True"
| "less_eq_hnum Infinity (Fin b) = False"
| "less_eq_hnum Infinity Infinity = True"

definition less_hnum :: "hnum \<Rightarrow> hnum \<Rightarrow> bool" where
  "less_hnum x y = (x \<le> y \<and> \<not> y \<le> x)"

instance
proof
  fix x y z :: hnum
  show "(x < y) = (x \<le> y \<and> \<not> y \<le> x)" by (simp add: less_hnum_def)
  show "x \<le> x" by (cases x) simp_all
  show "x \<le> y \<Longrightarrow> y \<le> z \<Longrightarrow> x \<le> z" by (cases x; cases y; cases z) simp_all
  show "x \<le> y \<Longrightarrow> y \<le> x \<Longrightarrow> x = y" by (cases x; cases y) simp_all
  show "x \<le> y \<or> y \<le> x" by (cases x; cases y) auto
qed

end

text \<open>\<open>cost + heuristic\<close>, a finite cost plus a number that may be \<open>Infinity\<close>.\<close>

fun add_num :: "real \<Rightarrow> hnum \<Rightarrow> hnum" where
  "add_num c (Fin h) = Fin (c + h)"
| "add_num c Infinity = Infinity"

text \<open>\<open>Math.atan2(y, x)\<close> over the reals.\<close>

definition atan2 :: "real \<Rightarrow> real \<Rightarrow> real" where
  "atan2 y x =
     (if 0 < x then arctan (y / x)
      else if x < 0 \<and> 0 \<le> y then arctan (y / x) + pi
      else if x < 0 then arctan (y / x) - pi
      else if 0 < y then pi / 2
      else if y < 0 then - (pi / 2)
      else 0)"

text \<open>The haversine formula of \<open>calculateStraightLineDistance\<close>, for two cities that were
  found. The formula is taken over the real numbers, where the value \<open>a\<close> lies between 0
  and 1 and the result is a number. In the double arithmetic of JavaScript the rounded
  \<open>a\<close> can exceed 1 for two cities that are nearly antipodal, and the result is then
  \<open>NaN\<close>, a value that \<open>hnum\<close> does not have. No property below that depends on the
  value of the heuristic is stated for such cities: the values that are used are those of
  cities at the same place (exactly 0 in both arithmetics) and of cities a quarter of the
  equator apart.\<close>

definition haversine :: "node \<Rightarrow> node \<Rightarrow> real" where
  "haversine city1 city2 =
     (let lat1Rad = lat city1 * pi / 180;
          lon1Rad = lon city1 * pi / 180;
          lat2Rad = lat city2 * pi / 180;
          lon2Rad = lon city2 * pi / 180;
          dLat = lat2Rad - lat1Rad;
          dLon = lon2Rad - lon1Rad;
          a = sin (dLat / 2) * sin (dLat / 2) +
              cos lat1Rad * cos lat2Rad * sin (dLon / 2) * sin (dLon / 2);
          c = 2 * atan2 (sqrt a) (sqrt (1 - a));
          earthRadius = 6371
      in earthRadius * c)"

text \<open>\<open>calculateStraightLineDistance\<close>: \<open>if (!city1 || !city2) return Infinity\<close>.\<close>

definition calculateStraightLineDistance :: "graph \<Rightarrow> city \<Rightarrow> city \<Rightarrow> hnum" where
  "calculateStraightLineDistance g city1Id city2Id =
     (case getNodeById g city1Id of
        None \<Rightarrow> Infinity
      | Some city1 \<Rightarrow>
          (case getNodeById g city2Id of
             None \<Rightarrow> Infinity
           | Some city2 \<Rightarrow> Fin (haversine city1 city2)))"

text \<open>A goal argument is one identifier or a JavaScript \<open>Set\<close> of identifiers; the set is the
  list of its members in insertion order.\<close>

datatype goal = Single city | GoalSet "city list"

text \<open>\<open>new Set(array)\<close>: the members in order of first occurrence.\<close>

fun js_Set :: "'a list \<Rightarrow> 'a list" where
  "js_Set [] = []"
| "js_Set (x # xs) = x # filter (\<lambda>y. y \<noteq> x) (js_Set xs)"

definition isGoalNode :: "city \<Rightarrow> goal \<Rightarrow> bool" where
  "isGoalNode nodeId goalOrSet =
     (case goalOrSet of
        GoalSet gs \<Rightarrow> nodeId \<in> set gs
      | Single gl \<Rightarrow> nodeId = gl)"

text \<open>The loop of \<open>heuristicToGoalOrGoals\<close> over the members of the set, with the
  accumulator \<open>minH\<close>.\<close>

fun minH_loop :: "graph \<Rightarrow> city \<Rightarrow> city list \<Rightarrow> hnum \<Rightarrow> hnum" where
  "minH_loop g nodeId [] minH = minH"
| "minH_loop g nodeId (gl # gs) minH =
     (let h = calculateStraightLineDistance g nodeId gl
      in minH_loop g nodeId gs (if h < minH then h else minH))"

definition heuristicToGoalOrGoals :: "graph \<Rightarrow> city \<Rightarrow> goal \<Rightarrow> hnum" where
  "heuristicToGoalOrGoals g nodeId goalOrSet =
     (case goalOrSet of
        GoalSet gs \<Rightarrow> if length gs = 0 then Infinity else minH_loop g nodeId gs Infinity
      | Single gl \<Rightarrow> calculateStraightLineDistance g nodeId gl)"

definition reachedGoalFromPath :: "city list \<Rightarrow> city option" where
  "reachedGoalFromPath path = (if path \<noteq> [] then Some (last path) else None)"

section \<open>Outcomes, counters and the cancellation flag\<close>

text \<open>
  The object a strategy returns. \<open>executionTime\<close> is wall-clock time and is left out.
  A property that the JavaScript object does not have is \<open>None\<close>; the properties
  \<open>path\<close> and \<open>cost\<close> are the fields \<open>rpath\<close> and \<open>rcost\<close>.
\<close>

record outcome =
  success :: bool
  rpath :: "city list option"
  rcost :: "real option"
  nodesExplored :: nat
  nodesDiscovered :: nat
  edgesProcessed :: nat
  reachedGoal :: "city option"
  reason :: "string option"

text \<open>
  The calls a strategy makes to the animation: \<open>animateNodeExploration(n)\<close>,
  \<open>animateNodeExploration(n, false)\<close> and \<open>animatePath(path)\<close>. They are the observable
  trace of a run.
\<close>

datatype event = Exploring city | Explored city | PathShown "city list"

text \<open>
  The mutable variables of one invocation: the three counters \<open>nodesExplored\<close>,
  \<open>nodesDiscovered\<close> and \<open>edgesProcessed\<close>, the number of times the global flag
  \<open>isSearchRunning\<close> has been read, and the events emitted so far. The flag is changed by
  the user interface while a strategy is suspended, so its value is given from outside:
  \<open>running k\<close> is the value found by the read number \<open>k\<close> of the invocation.
\<close>

record run =
  reads :: nat
  explored :: nat
  discovered :: nat
  edges :: nat
  events :: "event list"

definition start_run :: "nat \<Rightarrow> run" where
  "start_run d = \<lparr>reads = 0, explored = 0, discovered = d, edges = 0, events = []\<rparr>"

definition read_flag :: "run \<Rightarrow> run" where
  "read_flag st = st\<lparr>reads := reads st + 1\<rparr>"

definition emit :: "event \<Rightarrow> run \<Rightarrow> run" where
  "emit e st = st\<lparr>events := events st @ [e]\<rparr>"

text \<open>\<open>nodesExplored++; await animateNodeExploration(currentNode)\<close>.\<close>

definition explore :: "city \<Rightarrow> run \<Rightarrow> run" where
  "explore n st = emit (Exploring n) (st\<lparr>explored := explored st + 1\<rparr>)"

text \<open>The object returned after the loop of a strategy, and the object returned at a
  goal.\<close>

definition no_path :: "run \<Rightarrow> string \<Rightarrow> outcome \<times> event list" where
  "no_path st r =
     (\<lparr>success = False, rpath = None, rcost = None, nodesExplored = explored st,
       nodesDiscovered = discovered st, edgesProcessed = edges st, reachedGoal = None,
       reason = Some r\<rparr>, events st)"

definition found :: "run \<Rightarrow> city list \<Rightarrow> real \<Rightarrow> city option \<Rightarrow> outcome \<times> event list" where
  "found st p c rg =
     (\<lparr>success = True, rpath = Some p, rcost = Some c, nodesExplored = explored st,
       nodesDiscovered = discovered st, edgesProcessed = edges st, reachedGoal = rg,
       reason = None\<rparr>, events (emit (PathShown p) st))"



text \<open>The identifiers that occur as an endpoint of a link.\<close>

definition endpoints :: "graph \<Rightarrow> city set" where
  "endpoints g = source ` set (links g) \<union> target ` set (links g)"

section \<open>Breadth-first and depth-first search\<close>

text \<open>
  The loop over the neighbours in \<open>breadthFirstSearch\<close> and \<open>depthFirstSearch\<close> (the same
  body in both): count the edge, and add a neighbour that is not in \<open>visited\<close> to
  \<open>visited\<close> and to the end of the queue or stack.
\<close>

fun push_unvisited ::
  "city list \<Rightarrow> neighbor list \<Rightarrow> (city \<times> city list) list \<times> city set \<times> run \<Rightarrow>
   (city \<times> city list) list \<times> city set \<times> run" where
  "push_unvisited path [] (queue, visited, st) = (queue, visited, st)"
| "push_unvisited path (nb # rest) (queue, visited, st) =
     (let st1 = st\<lparr>edges := edges st + 1\<rparr>
      in if fst nb \<notin> visited
         then push_unvisited path rest
                (queue @ [(fst nb, path @ [fst nb])], insert (fst nb) visited,
                 st1\<lparr>discovered := discovered st1 + 1\<rparr>)
         else push_unvisited path rest (queue, visited, st1))"

lemma neighbors_of_endpoints:
  "fst ` set (neighbors_of ls c) \<subseteq> source ` set ls \<union> target ` set ls"
  by (induction ls) auto

lemma getNeighbors_endpoints: "fst ` set (getNeighbors g c) \<subseteq> endpoints g"
  unfolding getNeighbors_def endpoints_def by (rule neighbors_of_endpoints)

lemma finite_endpoints: "finite (endpoints g)"
  by (simp add: endpoints_def)

lemma push_unvisited_measure:
  assumes "push_unvisited path nbrs (queue, visited, st) = (queue', visited', st')"
    and "fst ` set nbrs \<subseteq> U" and "finite U"
  shows "length queue' + card (U - visited') = length queue + card (U - visited)"
  using assms
proof (induction nbrs arbitrary: queue visited st)
  case Nil
  then show ?case by simp
next
  case (Cons nb rest)
  show ?case
  proof (cases "fst nb \<in> visited")
    case True
    with Cons show ?thesis by (simp add: Let_def)
  next
    case False
    have in_U: "fst nb \<in> U - visited" using False Cons.prems(2) by auto
    have fin: "finite (U - visited)" using Cons.prems(3) by simp
    have "card (U - insert (fst nb) visited) = card (U - visited) - 1"
      using in_U fin by (metis Diff_insert card_Diff_singleton)
    moreover have "0 < card (U - visited)" using in_U fin by (auto simp: card_gt_0_iff)
    moreover have "length queue' + card (U - visited') =
        length (queue @ [(fst nb, path @ [fst nb])]) + card (U - insert (fst nb) visited)"
      using Cons.IH [of "queue @ [(fst nb, path @ [fst nb])]" "insert (fst nb) visited"]
        Cons.prems False by (simp add: Let_def)
    ultimately show ?thesis by simp
  qed
qed

function breadthFirstSearch_loop ::
  "graph \<Rightarrow> (nat \<Rightarrow> bool) \<Rightarrow> goal \<Rightarrow> (city \<times> city list) list \<Rightarrow> city set \<Rightarrow> run \<Rightarrow>
   outcome \<times> event list" where
  "breadthFirstSearch_loop g running goal [] visited st =
     no_path st ''No path exists between the cities''"
| "breadthFirstSearch_loop g running goal ((currentNode, path) # queue) visited st =
     (if \<not> running (reads st)
      then no_path (read_flag st) ''No path exists between the cities''
      else
        let st1 = explore currentNode (read_flag st)
        in if isGoalNode currentNode goal
           then found st1 path (calculatePathCost g path) (reachedGoalFromPath path)
           else
             (case push_unvisited path (getNeighbors g currentNode) (queue, visited, st1) of
                (queue2, visited2, st2) \<Rightarrow>
                  breadthFirstSearch_loop g running goal queue2 visited2
                    (emit (Explored currentNode) st2)))"
  by pat_completeness auto
termination
proof (relation "measure (\<lambda>(g, running, goal, queue, visited, st).
                  length queue + card (endpoints g - visited))", goal_cases)
  case 1
  show ?case by simp
next
  case (2 g running goal currentNode path queue visited st st1 queue2 rest visited2 st2)
  have "push_unvisited path (getNeighbors g currentNode) (queue, visited, st1) =
        (queue2, visited2, st2)"
    using 2(4,5) by simp
  from push_unvisited_measure [OF this getNeighbors_endpoints finite_endpoints]
  show ?case by simp
qed

definition breadthFirstSearch ::
  "graph \<Rightarrow> (nat \<Rightarrow> bool) \<Rightarrow> city \<Rightarrow> goal \<Rightarrow> outcome \<times> event list" where
  "breadthFirstSearch g running start goal =
     breadthFirstSearch_loop g running goal [(start, [start])] {start} (start_run 1)"

text \<open>\<open>depthFirstSearch\<close>. The stack is the JavaScript array: \<open>pop\<close> takes the last element
  and \<open>push\<close> appends; the neighbours are visited from the last index down to 0.\<close>

function depthFirstSearch_loop ::
  "graph \<Rightarrow> (nat \<Rightarrow> bool) \<Rightarrow> goal \<Rightarrow> (city \<times> city list) list \<Rightarrow> city set \<Rightarrow> run \<Rightarrow>
   outcome \<times> event list" where
  "depthFirstSearch_loop g running goal stack visited st =
     (if stack = [] then no_path st ''No path exists between the cities''
      else if \<not> running (reads st)
      then no_path (read_flag st) ''No path exists between the cities''
      else
        (case last stack of
           (currentNode, path) \<Rightarrow>
             let st1 = explore currentNode (read_flag st)
             in if isGoalNode currentNode goal
                then found st1 path (calculatePathCost g path) (reachedGoalFromPath path)
                else
                  (case push_unvisited path (rev (getNeighbors g currentNode))
                          (butlast stack, visited, st1) of
                     (stack2, visited2, st2) \<Rightarrow>
                       depthFirstSearch_loop g running goal stack2 visited2
                         (emit (Explored currentNode) st2))))"
  by pat_completeness auto
termination
proof (relation "measure (\<lambda>(g, running, goal, stack, visited, st).
                  length stack + card (endpoints g - visited))", goal_cases)
  case 1
  show ?case by simp
next
  case (2 g running goal stack visited st currentNode path st1 stack2 rest visited2 st2)
  have eq: "push_unvisited path (rev (getNeighbors g currentNode)) (butlast stack, visited, st1) =
        (stack2, visited2, st2)"
    using 2 by simp
  have sub: "fst ` set (rev (getNeighbors g currentNode)) \<subseteq> endpoints g"
    using getNeighbors_endpoints [of g currentNode] by simp
  have "length stack2 + card (endpoints g - visited2) =
      length (butlast stack) + card (endpoints g - visited)"
    by (rule push_unvisited_measure [OF eq sub finite_endpoints])
  moreover have "length (butlast stack) < length stack" using 2(1) by (cases stack) auto
  ultimately show ?case by simp
qed

definition depthFirstSearch ::
  "graph \<Rightarrow> (nat \<Rightarrow> bool) \<Rightarrow> city \<Rightarrow> goal \<Rightarrow> outcome \<times> event list" where
  "depthFirstSearch g running start goal =
     depthFirstSearch_loop g running goal [(start, [start])] {start} (start_run 1)"

section \<open>Uniform-cost, greedy best-first and A* search\<close>

text \<open>
  The three strategies keep a frontier array that is sorted at the top of every iteration
  by \<open>frontier.sort((a, b) => a.key - b.key)\<close> and then shifted. \<open>Array.prototype.sort\<close> is
  stable, and the comparator orders by the key (two keys that are both \<open>Infinity\<close> compare
  as equal), so the sorted array is \<open>sort_key\<close> of the array. A frontier entry is a tuple
  whose first component is the node.
\<close>

lemma set_tl_sort_key: "set (tl (sort_key f xs)) \<subseteq> set xs"
proof
  fix x assume "x \<in> set (tl (sort_key f xs))"
  then have "x \<in> set (sort_key f xs)" by (cases "sort_key f xs") auto
  then show "x \<in> set xs" by simp
qed

lemma hd_sort_key_in: "xs \<noteq> [] \<Longrightarrow> hd (sort_key f xs) \<in> set xs"
proof -
  assume "xs \<noteq> []"
  then have "sort_key f xs \<noteq> []" by (cases xs) auto
  then have "hd (sort_key f xs) \<in> set (sort_key f xs)" by (rule hd_in_set)
  then show ?thesis by simp
qed

lemma length_tl_sort_key: "xs \<noteq> [] \<Longrightarrow> length (tl (sort_key f xs)) < length xs"
  by (cases xs) auto

lemma frontier_measure:
  assumes "finite E" and "finite N" and "c \<in> N" and "c \<notin> V" and "N' \<subseteq> N \<union> E"
  shows "card ((E \<union> N') - insert c V) < card ((E \<union> N) - V)"
proof (rule psubset_card_mono)
  show "finite ((E \<union> N) - V)" using assms by simp
  show "(E \<union> N') - insert c V \<subset> (E \<union> N) - V" using assms by auto
qed

lemma frontier_measure_stale:
  assumes "finite E" and "finite N" and "N' \<subseteq> N"
  shows "card ((E \<union> N') - V) \<le> card ((E \<union> N) - V)"
  by (rule card_mono) (use assms in auto)

text \<open>The loop over the neighbours in \<open>uniformCostSearch\<close>. An entry is
  \<open>{node, path, cost}\<close>.\<close>

fun ucs_push ::
  "city list \<Rightarrow> real \<Rightarrow> city set \<Rightarrow> neighbor list \<Rightarrow>
   (city \<times> city list \<times> real) list \<times> run \<Rightarrow> (city \<times> city list \<times> real) list \<times> run" where
  "ucs_push path cost visited [] (frontier, st) = (frontier, st)"
| "ucs_push path cost visited (nb # rest) (frontier, st) =
     (let st1 = st\<lparr>edges := edges st + 1\<rparr>
      in if fst nb \<notin> visited
         then ucs_push path cost visited rest
                (frontier @ [(fst nb, path @ [fst nb], cost + snd nb)],
                 st1\<lparr>discovered := discovered st1 + 1\<rparr>)
         else ucs_push path cost visited rest (frontier, st1))"

lemma ucs_push_frontier:
  "fst (ucs_push path cost visited nbrs (frontier, st)) =
   frontier @ map (\<lambda>nb. (fst nb, path @ [fst nb], cost + snd nb))
                 (filter (\<lambda>nb. fst nb \<notin> visited) nbrs)"
  by (induction nbrs arbitrary: frontier st) (simp_all add: Let_def)

lemma ucs_push_nodes:
  assumes "ucs_push path cost visited nbrs (frontier, st) = (frontier', st')"
  shows "fst ` set frontier' \<subseteq> fst ` set frontier \<union> fst ` set nbrs"
proof -
  have "frontier' = frontier @ map (\<lambda>nb. (fst nb, path @ [fst nb], cost + snd nb))
                 (filter (\<lambda>nb. fst nb \<notin> visited) nbrs)"
    using ucs_push_frontier [of path cost visited nbrs frontier st] assms by simp
  then show ?thesis by force
qed

function uniformCostSearch_loop ::
  "graph \<Rightarrow> (nat \<Rightarrow> bool) \<Rightarrow> goal \<Rightarrow> (city \<times> city list \<times> real) list \<Rightarrow> city set \<Rightarrow> run \<Rightarrow>
   outcome \<times> event list" where
  "uniformCostSearch_loop g running goal frontier visited st =
     (if frontier = [] then no_path st ''No path exists between the cities''
      else if \<not> running (reads st)
      then no_path (read_flag st) ''No path exists between the cities''
      else
        let sorted = sort_key (\<lambda>(n, p, c). c) frontier
        in (case hd sorted of
              (currentNode, path, cost) \<Rightarrow>
                if currentNode \<in> visited
                then uniformCostSearch_loop g running goal (tl sorted) visited (read_flag st)
                else
                  let visited1 = insert currentNode visited;
                      st1 = explore currentNode (read_flag st)
                  in if isGoalNode currentNode goal
                     then found st1 path cost (reachedGoalFromPath path)
                     else
                       (case ucs_push path cost visited1 (getNeighbors g currentNode)
                               (tl sorted, st1) of
                          (frontier2, st2) \<Rightarrow>
                            uniformCostSearch_loop g running goal frontier2 visited1
                              (emit (Explored currentNode) st2))))"
  by pat_completeness auto
termination
proof (relation "measures [\<lambda>(g, running, goal, frontier, visited, st).
                    card ((endpoints g \<union> fst ` set frontier) - visited),
                  \<lambda>(g, running, goal, frontier, visited, st). length frontier]", goal_cases)
  case 1
  show ?case by simp
next
  case (2 g running goal frontier visited st sorted currentNode rest path cost)
  have "fst ` set (tl sorted) \<subseteq> fst ` set frontier"
    using set_tl_sort_key [of "\<lambda>(n, p, c). c" frontier] 2(3) by blast
  then have "card ((endpoints g \<union> fst ` set (tl sorted)) - visited) \<le>
             card ((endpoints g \<union> fst ` set frontier) - visited)"
    by (intro frontier_measure_stale) (simp_all add: finite_endpoints)
  moreover have "length (tl sorted) < length frontier"
    using 2(1,3) by (simp add: length_tl_sort_key)
  ultimately show ?case by auto
next
  case (3 g running goal frontier visited st sorted currentNode rest path cost
          visited1 st1 frontier2 st2)
  have "hd sorted \<in> set frontier" using 3(1,3) by (simp add: hd_sort_key_in)
  then have "fst (hd sorted) \<in> fst ` set frontier" by (rule imageI)
  then have c_in: "currentNode \<in> fst ` set frontier" using 3(4) [symmetric] by simp
  have tl_sub: "fst ` set (tl sorted) \<subseteq> fst ` set frontier"
    using set_tl_sort_key [of "\<lambda>(n, p, c). c" frontier] 3(3) by blast
  have "ucs_push path cost visited1 (getNeighbors g currentNode) (tl sorted, st1) =
        (frontier2, st2)"
    using 3(10) by simp
  then have "fst ` set frontier2 \<subseteq>
             fst ` set (tl sorted) \<union> fst ` set (getNeighbors g currentNode)"
    by (rule ucs_push_nodes)
  then have sub: "fst ` set frontier2 \<subseteq> fst ` set frontier \<union> endpoints g"
    using tl_sub getNeighbors_endpoints [of g currentNode] by blast
  have "card ((endpoints g \<union> fst ` set frontier2) - insert currentNode visited) <
        card ((endpoints g \<union> fst ` set frontier) - visited)"
    using c_in 3(6) sub by (intro frontier_measure) (simp_all add: finite_endpoints)
  then show ?case using 3(7) by simp
qed

definition uniformCostSearch ::
  "graph \<Rightarrow> (nat \<Rightarrow> bool) \<Rightarrow> city \<Rightarrow> goal \<Rightarrow> outcome \<times> event list" where
  "uniformCostSearch g running start goal =
     uniformCostSearch_loop g running goal [(start, [start], 0)] {} (start_run 1)"

text \<open>The loop over the neighbours in \<open>greedyBestFirstSearch\<close>. An entry is
  \<open>{node, path, heuristic}\<close>.\<close>

fun greedy_push ::
  "graph \<Rightarrow> goal \<Rightarrow> city list \<Rightarrow> city set \<Rightarrow> neighbor list \<Rightarrow>
   (city \<times> city list \<times> hnum) list \<times> run \<Rightarrow> (city \<times> city list \<times> hnum) list \<times> run" where
  "greedy_push g goal path visited [] (frontier, st) = (frontier, st)"
| "greedy_push g goal path visited (nb # rest) (frontier, st) =
     (let st1 = st\<lparr>edges := edges st + 1\<rparr>
      in if fst nb \<notin> visited
         then greedy_push g goal path visited rest
                (frontier @ [(fst nb, path @ [fst nb], heuristicToGoalOrGoals g (fst nb) goal)],
                 st1\<lparr>discovered := discovered st1 + 1\<rparr>)
         else greedy_push g goal path visited rest (frontier, st1))"

lemma greedy_push_frontier:
  "fst (greedy_push g goal path visited nbrs (frontier, st)) =
   frontier @ map (\<lambda>nb. (fst nb, path @ [fst nb], heuristicToGoalOrGoals g (fst nb) goal))
                 (filter (\<lambda>nb. fst nb \<notin> visited) nbrs)"
  by (induction nbrs arbitrary: frontier st) (simp_all add: Let_def)

lemma greedy_push_nodes:
  assumes "greedy_push g goal path visited nbrs (frontier, st) = (frontier', st')"
  shows "fst ` set frontier' \<subseteq> fst ` set frontier \<union> fst ` set nbrs"
proof -
  have "frontier' =
        frontier @ map (\<lambda>nb. (fst nb, path @ [fst nb], heuristicToGoalOrGoals g (fst nb) goal))
                 (filter (\<lambda>nb. fst nb \<notin> visited) nbrs)"
    using greedy_push_frontier [of g goal path visited nbrs frontier st] assms by simp
  then show ?thesis by force
qed

function greedyBestFirstSearch_loop ::
  "graph \<Rightarrow> (nat \<Rightarrow> bool) \<Rightarrow> goal \<Rightarrow> (city \<times> city list \<times> hnum) list \<Rightarrow> city set \<Rightarrow> run \<Rightarrow>
   outcome \<times> event list" where
  "greedyBestFirstSearch_loop g running goal frontier visited st =
     (if frontier = [] then no_path st ''No path exists between the cities''
      else if \<not> running (reads st)
      then no_path (read_flag st) ''No path exists between the cities''
      else
        let sorted = sort_key (\<lambda>(n, p, h). h) frontier
        in (case hd sorted of
              (currentNode, path, heuristic) \<Rightarrow>
                if currentNode \<in> visited
                then greedyBestFirstSearch_loop g running goal (tl sorted) visited (read_flag st)
                else
                  let visited1 = insert currentNode visited;
                      st1 = explore currentNode (read_flag st)
                  in if isGoalNode currentNode goal
                     then found st1 path (calculatePathCost g path) (reachedGoalFromPath path)
                     else
                       (case greedy_push g goal path visited1 (getNeighbors g currentNode)
                               (tl sorted, st1) of
                          (frontier2, st2) \<Rightarrow>
                            greedyBestFirstSearch_loop g running goal frontier2 visited1
                              (emit (Explored currentNode) st2))))"
  by pat_completeness auto
termination
proof (relation "measures [\<lambda>(g, running, goal, frontier, visited, st).
                    card ((endpoints g \<union> fst ` set frontier) - visited),
                  \<lambda>(g, running, goal, frontier, visited, st). length frontier]", goal_cases)
  case 1
  show ?case by simp
next
  case (2 g running goal frontier visited st sorted currentNode rest path heuristic)
  have "fst ` set (tl sorted) \<subseteq> fst ` set frontier"
    using set_tl_sort_key [of "\<lambda>(n, p, h). h" frontier] 2(3) by blast
  then have "card ((endpoints g \<union> fst ` set (tl sorted)) - visited) \<le>
             card ((endpoints g \<union> fst ` set frontier) - visited)"
    by (intro frontier_measure_stale) (simp_all add: finite_endpoints)
  moreover have "length (tl sorted) < length frontier"
    using 2(1,3) by (simp add: length_tl_sort_key)
  ultimately show ?case by auto
next
  case (3 g running goal frontier visited st sorted currentNode rest path heuristic
          visited1 st1 frontier2 st2)
  have "hd sorted \<in> set frontier" using 3(1,3) by (simp add: hd_sort_key_in)
  then have "fst (hd sorted) \<in> fst ` set frontier" by (rule imageI)
  then have c_in: "currentNode \<in> fst ` set frontier" using 3(4) [symmetric] by simp
  have tl_sub: "fst ` set (tl sorted) \<subseteq> fst ` set frontier"
    using set_tl_sort_key [of "\<lambda>(n, p, h). h" frontier] 3(3) by blast
  have "greedy_push g goal path visited1 (getNeighbors g currentNode) (tl sorted, st1) =
        (frontier2, st2)"
    using 3(10) by simp
  then have "fst ` set frontier2 \<subseteq>
             fst ` set (tl sorted) \<union> fst ` set (getNeighbors g currentNode)"
    by (rule greedy_push_nodes)
  then have sub: "fst ` set frontier2 \<subseteq> fst ` set frontier \<union> endpoints g"
    using tl_sub getNeighbors_endpoints [of g currentNode] by blast
  have "card ((endpoints g \<union> fst ` set frontier2) - insert currentNode visited) <
        card ((endpoints g \<union> fst ` set frontier) - visited)"
    using c_in 3(6) sub by (intro frontier_measure) (simp_all add: finite_endpoints)
  then show ?case using 3(7) by simp
qed

definition greedyBestFirstSearch ::
  "graph \<Rightarrow> (nat \<Rightarrow> bool) \<Rightarrow> city \<Rightarrow> goal \<Rightarrow> outcome \<times> event list" where
  "greedyBestFirstSearch g running start goal =
     greedyBestFirstSearch_loop g running goal
       [(start, [start], heuristicToGoalOrGoals g start goal)] {} (start_run 1)"

text \<open>The loop over the neighbours in \<open>aStarSearch\<close>. An entry is
  \<open>{node, path, cost, heuristic, f}\<close>.\<close>

fun astar_push ::
  "graph \<Rightarrow> goal \<Rightarrow> city list \<Rightarrow> real \<Rightarrow> city set \<Rightarrow> neighbor list \<Rightarrow>
   (city \<times> city list \<times> real \<times> hnum \<times> hnum) list \<times> run \<Rightarrow>
   (city \<times> city list \<times> real \<times> hnum \<times> hnum) list \<times> run" where
  "astar_push g goal path cost visited [] (frontier, st) = (frontier, st)"
| "astar_push g goal path cost visited (nb # rest) (frontier, st) =
     (let st1 = st\<lparr>edges := edges st + 1\<rparr>
      in if fst nb \<notin> visited
         then
           let newCost = cost + snd nb;
               heuristic = heuristicToGoalOrGoals g (fst nb) goal;
               f = add_num newCost heuristic
           in astar_push g goal path cost visited rest
                (frontier @ [(fst nb, path @ [fst nb], newCost, heuristic, f)],
                 st1\<lparr>discovered := discovered st1 + 1\<rparr>)
         else astar_push g goal path cost visited rest (frontier, st1))"

lemma astar_push_frontier:
  "fst (astar_push g goal path cost visited nbrs (frontier, st)) =
   frontier @ map (\<lambda>nb. (fst nb, path @ [fst nb], cost + snd nb,
                         heuristicToGoalOrGoals g (fst nb) goal,
                         add_num (cost + snd nb) (heuristicToGoalOrGoals g (fst nb) goal)))
                 (filter (\<lambda>nb. fst nb \<notin> visited) nbrs)"
  by (induction nbrs arbitrary: frontier st) (simp_all add: Let_def)

lemma astar_push_nodes:
  assumes "astar_push g goal path cost visited nbrs (frontier, st) = (frontier', st')"
  shows "fst ` set frontier' \<subseteq> fst ` set frontier \<union> fst ` set nbrs"
proof -
  have "frontier' =
        frontier @ map (\<lambda>nb. (fst nb, path @ [fst nb], cost + snd nb,
                         heuristicToGoalOrGoals g (fst nb) goal,
                         add_num (cost + snd nb) (heuristicToGoalOrGoals g (fst nb) goal)))
                 (filter (\<lambda>nb. fst nb \<notin> visited) nbrs)"
    using astar_push_frontier [of g goal path cost visited nbrs frontier st] assms by simp
  then show ?thesis by force
qed

function aStarSearch_loop ::
  "graph \<Rightarrow> (nat \<Rightarrow> bool) \<Rightarrow> goal \<Rightarrow> (city \<times> city list \<times> real \<times> hnum \<times> hnum) list \<Rightarrow>
   city set \<Rightarrow> run \<Rightarrow> outcome \<times> event list" where
  "aStarSearch_loop g running goal frontier visited st =
     (if frontier = [] then no_path st ''No path exists between the cities''
      else if \<not> running (reads st)
      then no_path (read_flag st) ''No path exists between the cities''
      else
        let sorted = sort_key (\<lambda>(n, p, c, h, f). f) frontier
        in (case hd sorted of
              (currentNode, path, cost, heuristic, f) \<Rightarrow>
                if currentNode \<in> visited
                then aStarSearch_loop g running goal (tl sorted) visited (read_flag st)
                else
                  let visited1 = insert currentNode visited;
                      st1 = explore currentNode (read_flag st)
                  in if isGoalNode currentNode goal
                     then found st1 path cost (reachedGoalFromPath path)
                     else
                       (case astar_push g goal path cost visited1 (getNeighbors g currentNode)
                               (tl sorted, st1) of
                          (frontier2, st2) \<Rightarrow>
                            aStarSearch_loop g running goal frontier2 visited1
                              (emit (Explored currentNode) st2))))"
  by pat_completeness auto
termination
proof (relation "measures [\<lambda>(g, running, goal, frontier, visited, st).
                    card ((endpoints g \<union> fst ` set frontier) - visited),
                  \<lambda>(g, running, goal, frontier, visited, st). length frontier]", goal_cases)
  case 1
  show ?case by simp
next
  case (2 g running goal frontier visited st sorted currentNode r1 path r2 cost r3 heuristic f)
  have "fst ` set (tl sorted) \<subseteq> fst ` set frontier"
    using set_tl_sort_key [of "\<lambda>(n, p, c, h, f). f" frontier] 2(3) by blast
  then have "card ((endpoints g \<union> fst ` set (tl sorted)) - visited) \<le>
             card ((endpoints g \<union> fst ` set frontier) - visited)"
    by (intro frontier_measure_stale) (simp_all add: finite_endpoints)
  moreover have "length (tl sorted) < length frontier"
    using 2(1,3) by (simp add: length_tl_sort_key)
  ultimately show ?case by auto
next
  case (3 g running goal frontier visited st sorted currentNode r1 path r2 cost r3 heuristic f
          visited1 st1 frontier2 st2)
  have "hd sorted \<in> set frontier" using 3(1,3) by (simp add: hd_sort_key_in)
  then have "fst (hd sorted) \<in> fst ` set frontier" by (rule imageI)
  then have c_in: "currentNode \<in> fst ` set frontier" using 3(4) [symmetric] by simp
  have tl_sub: "fst ` set (tl sorted) \<subseteq> fst ` set frontier"
    using set_tl_sort_key [of "\<lambda>(n, p, c, h, f). f" frontier] 3(3) by blast
  have "astar_push g goal path cost visited1 (getNeighbors g currentNode) (tl sorted, st1) =
        (frontier2, st2)"
    using 3(12) by simp
  then have "fst ` set frontier2 \<subseteq>
             fst ` set (tl sorted) \<union> fst ` set (getNeighbors g currentNode)"
    by (rule astar_push_nodes)
  then have sub: "fst ` set frontier2 \<subseteq> fst ` set frontier \<union> endpoints g"
    using tl_sub getNeighbors_endpoints [of g currentNode] by blast
  have "card ((endpoints g \<union> fst ` set frontier2) - insert currentNode visited) <
        card ((endpoints g \<union> fst ` set frontier) - visited)"
    using c_in 3(8) sub by (intro frontier_measure) (simp_all add: finite_endpoints)
  then show ?case using 3(9) by simp
qed

definition aStarSearch ::
  "graph \<Rightarrow> (nat \<Rightarrow> bool) \<Rightarrow> city \<Rightarrow> goal \<Rightarrow> outcome \<times> event list" where
  "aStarSearch g running start goal =
     aStarSearch_loop g running goal
       [(start, [start], 0, heuristicToGoalOrGoals g start goal,
         heuristicToGoalOrGoals g start goal)] {} (start_run 1)"

section \<open>Depth-limited and iterative-deepening search\<close>

text \<open>
  The objects the inner function \<open>dls\<close> returns. The object for a stopped search has no
  counters, so the counters are optional here; \<open>depthLimitedSearch\<close> fills them in.
\<close>

record dls_result =
  d_success :: bool
  d_path :: "city list option"
  d_cost :: "real option"
  d_nodesExplored :: "nat option"
  d_nodesDiscovered :: "nat option"
  d_edgesProcessed :: "nat option"
  d_reachedGoal :: "city option"
  d_reason :: "string option"

definition dls_stopped :: dls_result where
  "dls_stopped =
     \<lparr>d_success = False, d_path = None, d_cost = None, d_nodesExplored = None,
      d_nodesDiscovered = None, d_edgesProcessed = None, d_reachedGoal = None,
      d_reason = Some ''Search stopped''\<rparr>"

definition dls_failed :: "string \<Rightarrow> run \<Rightarrow> dls_result" where
  "dls_failed r st =
     \<lparr>d_success = False, d_path = None, d_cost = None, d_nodesExplored = Some (explored st),
      d_nodesDiscovered = Some (discovered st), d_edgesProcessed = Some (edges st),
      d_reachedGoal = None, d_reason = Some r\<rparr>"

definition dls_found :: "graph \<Rightarrow> city list \<Rightarrow> run \<Rightarrow> dls_result" where
  "dls_found g path st =
     \<lparr>d_success = True, d_path = Some path, d_cost = Some (calculatePathCost g path),
      d_nodesExplored = Some (explored st), d_nodesDiscovered = Some (discovered st),
      d_edgesProcessed = Some (edges st), d_reachedGoal = reachedGoalFromPath path,
      d_reason = None\<rparr>"

text \<open>
  The recursive function \<open>dls\<close> and its loop over the neighbours. The loop returns
  \<open>Some result\<close> when a recursive call succeeded (\<open>if (result.success) return result\<close>)
  and \<open>None\<close> when it ran to its end. The counters of the enclosing
  \<open>depthLimitedSearch\<close> are in the \<open>run\<close> that is passed along.
\<close>

function dls ::
    "graph \<Rightarrow> (nat \<Rightarrow> bool) \<Rightarrow> goal \<Rightarrow> int \<Rightarrow> city \<Rightarrow> city list \<Rightarrow> nat \<Rightarrow> run \<Rightarrow>
     dls_result \<times> run"
  and dls_for ::
    "graph \<Rightarrow> (nat \<Rightarrow> bool) \<Rightarrow> goal \<Rightarrow> int \<Rightarrow> city list \<Rightarrow> nat \<Rightarrow> neighbor list \<Rightarrow> run \<Rightarrow>
     dls_result option \<times> run" where
  "dls g running goal depthLimit currentNode path depth st =
     (if \<not> running (reads st) then (dls_stopped, read_flag st)
      else
        let st1 = explore currentNode (read_flag st)
        in if isGoalNode currentNode goal
           then (dls_found g path st1, emit (PathShown path) st1)
           else if depthLimit \<le> int depth
           then (dls_failed ''Depth limit reached'' st1, emit (Explored currentNode) st1)
           else
             (case dls_for g running goal depthLimit path depth
                     (getNeighbors g currentNode) st1 of
                (Some result, st2) \<Rightarrow> (result, st2)
              | (None, st2) \<Rightarrow>
                  (dls_failed ''No path found within depth limit'' st2,
                   emit (Explored currentNode) st2)))"
| "dls_for g running goal depthLimit path depth [] st = (None, st)"
| "dls_for g running goal depthLimit path depth (nb # rest) st =
     (let st1 = st\<lparr>edges := edges st + 1\<rparr>
      in if fst nb \<notin> set path
         then
           (case dls g running goal depthLimit (fst nb) (path @ [fst nb]) (depth + 1) st1 of
              (result, st2) \<Rightarrow>
                if d_success result then (Some result, st2)
                else dls_for g running goal depthLimit path depth rest
                       (if fst nb \<notin> set path
                        then st2\<lparr>discovered := discovered st2 + 1\<rparr> else st2))
         else dls_for g running goal depthLimit path depth rest st1)"
  by pat_completeness auto
termination
  apply (relation "measures [
     \<lambda>x. case x of
            Inl (g, running, goal, depthLimit, currentNode, path, depth, st) \<Rightarrow>
              3 * nat (depthLimit - int depth)
          | Inr (g, running, goal, depthLimit, path, depth, nbrs, st) \<Rightarrow>
              (if depthLimit \<le> int depth then 1 else 3 * nat (depthLimit - int depth) - 1),
     \<lambda>x. case x of
            Inl (g, running, goal, depthLimit, currentNode, path, depth, st) \<Rightarrow> 0
          | Inr (g, running, goal, depthLimit, path, depth, nbrs, st) \<Rightarrow> length nbrs]")
     apply simp
    apply (simp; linarith)
   apply (simp; linarith)
  apply simp_all
  done

text \<open>
  \<open>depthLimitedSearch\<close>, started when the flag has been read \<open>k\<close> times and the events
  \<open>evs\<close> have been emitted (iterative deepening calls it several times in one invocation).
  After the call of \<open>dls\<close> the result gets the counters of the closure where it has none:
  \<open>if (!result.nodesExplored)\<close> holds when the property is missing or 0, and
  \<open>typeof ... !== 'number'\<close> when it is missing. The final \<open>run\<close> is returned as well.
\<close>

definition depthLimitedSearch_from ::
  "graph \<Rightarrow> (nat \<Rightarrow> bool) \<Rightarrow> city \<Rightarrow> goal \<Rightarrow> int \<Rightarrow> nat \<Rightarrow> event list \<Rightarrow> outcome \<times> run" where
  "depthLimitedSearch_from g running start goal depthLimit k evs =
     (case dls g running goal depthLimit start [start] 0
             \<lparr>reads = k, explored = 0, discovered = 1, edges = 0, events = evs\<rparr> of
        (result, st) \<Rightarrow>
          (\<lparr>success = d_success result, rpath = d_path result, rcost = d_cost result,
            nodesExplored =
              (case d_nodesExplored result of
                 None \<Rightarrow> explored st
               | Some n \<Rightarrow> if n = 0 then explored st else n),
            nodesDiscovered =
              (case d_nodesDiscovered result of None \<Rightarrow> discovered st | Some n \<Rightarrow> n),
            edgesProcessed =
              (case d_edgesProcessed result of None \<Rightarrow> edges st | Some n \<Rightarrow> n),
            reachedGoal = d_reachedGoal result, reason = d_reason result\<rparr>, st))"

definition depthLimitedSearch ::
  "graph \<Rightarrow> (nat \<Rightarrow> bool) \<Rightarrow> city \<Rightarrow> goal \<Rightarrow> int \<Rightarrow> outcome \<times> event list" where
  "depthLimitedSearch g running start goal depthLimit =
     (case depthLimitedSearch_from g running start goal depthLimit 0 [] of
        (result, st) \<Rightarrow> (result, events st))"

text \<open>\<open>iterativeDeepeningSearch\<close>: the loop \<open>for (depth = 0; depth <= maxDepth; depth++)\<close>
  with the three totals.\<close>

definition maxDepth :: nat where
  "maxDepth = 5"

function iterativeDeepeningSearch_loop ::
  "graph \<Rightarrow> (nat \<Rightarrow> bool) \<Rightarrow> city \<Rightarrow> goal \<Rightarrow> nat \<Rightarrow> nat \<Rightarrow> nat \<Rightarrow> nat \<Rightarrow> nat \<Rightarrow> event list \<Rightarrow>
   outcome \<times> event list" where
  "iterativeDeepeningSearch_loop g running start goal depth totalNodesExplored
       totalEdgesProcessed totalNodesDiscovered k evs =
     (let failed =
            (\<lparr>success = False, rpath = None, rcost = None, nodesExplored = totalNodesExplored,
              nodesDiscovered = totalNodesDiscovered, edgesProcessed = totalEdgesProcessed,
              reachedGoal = None,
              reason = Some ''No path found within maximum depth of 5''\<rparr>, evs)
      in if \<not> depth \<le> maxDepth then failed
         else if \<not> running k then failed
         else
           (case depthLimitedSearch_from g running start goal (int depth) (k + 1) evs of
              (result, st) \<Rightarrow>
                let totalNodesExplored1 = totalNodesExplored + nodesExplored result;
                    totalEdgesProcessed1 = totalEdgesProcessed + edgesProcessed result;
                    totalNodesDiscovered1 = totalNodesDiscovered + nodesDiscovered result
                in if success result
                   then (result\<lparr>nodesExplored := totalNodesExplored1,
                                nodesDiscovered := totalNodesDiscovered1,
                                edgesProcessed := totalEdgesProcessed1\<rparr>, events st)
                   else iterativeDeepeningSearch_loop g running start goal (depth + 1)
                          totalNodesExplored1 totalEdgesProcessed1 totalNodesDiscovered1
                          (reads st) (events st)))"
  by pat_completeness auto
termination
  by (relation "measure (\<lambda>(g, running, start, goal, depth, te, tp, td, k, evs).
                  Suc maxDepth - depth)") auto

definition iterativeDeepeningSearch ::
  "graph \<Rightarrow> (nat \<Rightarrow> bool) \<Rightarrow> city \<Rightarrow> goal \<Rightarrow> outcome \<times> event list" where
  "iterativeDeepeningSearch g running start goal =
     iterativeDeepeningSearch_loop g running start goal 0 0 0 0 0 []"

section \<open>Bidirectional search\<close>

text \<open>The loop over the neighbours, the same in both directions; \<open>visited\<close> is the
  \<open>Map\<close> from a node to the path that reached it.\<close>

fun bidi_push ::
  "city list \<Rightarrow> neighbor list \<Rightarrow>
   (city \<times> city list) list \<times> (city \<rightharpoonup> city list) \<times> run \<Rightarrow>
   (city \<times> city list) list \<times> (city \<rightharpoonup> city list) \<times> run" where
  "bidi_push path [] (queue, visited, st) = (queue, visited, st)"
| "bidi_push path (nb # rest) (queue, visited, st) =
     (let st1 = st\<lparr>edges := edges st + 1\<rparr>
      in if visited (fst nb) = None
         then
           let newPath = path @ [fst nb]
           in bidi_push path rest
                (queue @ [(fst nb, newPath)], visited(fst nb \<mapsto> newPath),
                 st1\<lparr>discovered := discovered st1 + 1\<rparr>)
         else bidi_push path rest (queue, visited, st1))"

text \<open>The object returned when the two searches meet; it has no \<open>reachedGoal\<close>.\<close>

definition met :: "graph \<Rightarrow> run \<Rightarrow> city list \<Rightarrow> outcome \<times> event list" where
  "met g st fullPath = found st fullPath (calculatePathCost g fullPath) None"

text \<open>
  The block ``expand from front'' of one iteration: either the search ends (\<open>Inl\<close>) or the
  queue and the map of the front search are updated (\<open>Inr\<close>). The block ``expand from
  back'' is the same with the roles exchanged, but for the order in which the full path
  is put together.
\<close>

definition expand_front ::
  "graph \<Rightarrow> (city \<times> city list) list \<Rightarrow> (city \<rightharpoonup> city list) \<Rightarrow> (city \<rightharpoonup> city list) \<Rightarrow> run \<Rightarrow>
   (outcome \<times> event list) + ((city \<times> city list) list \<times> (city \<rightharpoonup> city list) \<times> run)" where
  "expand_front g frontQueue frontVisited backVisited st =
     (if frontQueue = [] then Inr (frontQueue, frontVisited, st)
      else
        (case hd frontQueue of
           (currentNode, path) \<Rightarrow>
             let st1 = explore currentNode st
             in (case backVisited currentNode of
                   Some backPath \<Rightarrow> Inl (met g st1 (path @ rev (butlast backPath)))
                 | None \<Rightarrow>
                     (case bidi_push path (getNeighbors g currentNode)
                             (tl frontQueue, frontVisited, st1) of
                        (queue2, visited2, st2) \<Rightarrow>
                          Inr (queue2, visited2, emit (Explored currentNode) st2)))))"

definition expand_back ::
  "graph \<Rightarrow> (city \<times> city list) list \<Rightarrow> (city \<rightharpoonup> city list) \<Rightarrow> (city \<rightharpoonup> city list) \<Rightarrow> run \<Rightarrow>
   (outcome \<times> event list) + ((city \<times> city list) list \<times> (city \<rightharpoonup> city list) \<times> run)" where
  "expand_back g backQueue backVisited frontVisited st =
     (if backQueue = [] then Inr (backQueue, backVisited, st)
      else
        (case hd backQueue of
           (currentNode, path) \<Rightarrow>
             let st1 = explore currentNode st
             in (case frontVisited currentNode of
                   Some frontPath \<Rightarrow> Inl (met g st1 (frontPath @ rev (butlast path)))
                 | None \<Rightarrow>
                     (case bidi_push path (getNeighbors g currentNode)
                             (tl backQueue, backVisited, st1) of
                        (queue2, visited2, st2) \<Rightarrow>
                          Inr (queue2, visited2, emit (Explored currentNode) st2)))))"

lemma bidi_push_measure:
  assumes "bidi_push path nbrs (queue, visited, st) = (queue', visited', st')"
    and "fst ` set nbrs \<subseteq> U" and "finite U"
  shows "length queue' + card (U - dom visited') = length queue + card (U - dom visited)"
  using assms
proof (induction nbrs arbitrary: queue visited st)
  case Nil
  then show ?case by simp
next
  case (Cons nb rest)
  show ?case
  proof (cases "visited (fst nb) = None")
    case False
    with Cons show ?thesis by (simp add: Let_def)
  next
    case True
    define v1 where "v1 = visited(fst nb \<mapsto> path @ [fst nb])"
    define q1 where "q1 = queue @ [(fst nb, path @ [fst nb])]"
    define s1 where "s1 = st\<lparr>edges := edges st + 1, discovered := discovered st + 1\<rparr>"
    have step: "bidi_push path rest (q1, v1, s1) = (queue', visited', st')"
      using Cons.prems(1) True unfolding v1_def q1_def s1_def by (simp add: Let_def)
    have rest_sub: "fst ` set rest \<subseteq> U" using Cons.prems(2) by simp
    have IH: "length queue' + card (U - dom visited') = length q1 + card (U - dom v1)"
      by (rule Cons.IH [OF step rest_sub Cons.prems(3)])
    have dom1: "dom v1 = insert (fst nb) (dom visited)" unfolding v1_def by simp
    have in_U: "fst nb \<in> U - dom visited" using True Cons.prems(2) by auto
    have fin: "finite (U - dom visited)" using Cons.prems(3) by simp
    have "card (U - insert (fst nb) (dom visited)) = card (U - dom visited) - 1"
      using in_U fin by (metis Diff_insert card_Diff_singleton)
    moreover have "0 < card (U - dom visited)" using in_U fin by (auto simp: card_gt_0_iff)
    ultimately show ?thesis using IH dom1 by (simp add: q1_def)
  qed
qed

lemma expand_front_measure:
  assumes "expand_front g frontQueue frontVisited backVisited st = Inr (queue2, visited2, st2)"
    and "frontQueue \<noteq> []"
  shows "length queue2 + card (endpoints g - dom visited2) <
         length frontQueue + card (endpoints g - dom frontVisited)"
proof -
  obtain currentNode path where hd: "hd frontQueue = (currentNode, path)"
    by (cases "hd frontQueue") auto
  obtain q v s where push:
    "bidi_push path (getNeighbors g currentNode)
       (tl frontQueue, frontVisited, explore currentNode st) = (q, v, s)"
    by (cases "bidi_push path (getNeighbors g currentNode)
       (tl frontQueue, frontVisited, explore currentNode st)") auto
  have "queue2 = q \<and> visited2 = v"
    using assms hd push
    by (auto simp: expand_front_def Let_def split: option.splits)
  moreover have "length q + card (endpoints g - dom v) =
        length (tl frontQueue) + card (endpoints g - dom frontVisited)"
    by (rule bidi_push_measure [OF push getNeighbors_endpoints finite_endpoints])
  moreover have "length (tl frontQueue) < length frontQueue"
    using assms(2) by (cases frontQueue) auto
  ultimately show ?thesis by simp
qed

lemma expand_back_measure:
  assumes "expand_back g backQueue backVisited frontVisited st = Inr (queue2, visited2, st2)"
  shows "length queue2 + card (endpoints g - dom visited2) \<le>
         length backQueue + card (endpoints g - dom backVisited)"
proof (cases "backQueue = []")
  case True
  then show ?thesis using assms by (simp add: expand_back_def)
next
  case False
  obtain currentNode path where hd: "hd backQueue = (currentNode, path)"
    by (cases "hd backQueue") auto
  obtain q v s where push:
    "bidi_push path (getNeighbors g currentNode)
       (tl backQueue, backVisited, explore currentNode st) = (q, v, s)"
    by (cases "bidi_push path (getNeighbors g currentNode)
       (tl backQueue, backVisited, explore currentNode st)") auto
  have "queue2 = q \<and> visited2 = v"
    using assms hd push False
    by (auto simp: expand_back_def Let_def split: option.splits)
  moreover have "length q + card (endpoints g - dom v) =
        length (tl backQueue) + card (endpoints g - dom backVisited)"
    by (rule bidi_push_measure [OF push getNeighbors_endpoints finite_endpoints])
  moreover have "length (tl backQueue) < length backQueue"
    using False by (cases backQueue) auto
  ultimately show ?thesis by simp
qed

function bidirectionalSearch_loop ::
  "graph \<Rightarrow> (nat \<Rightarrow> bool) \<Rightarrow> (city \<times> city list) list \<Rightarrow> (city \<times> city list) list \<Rightarrow>
   (city \<rightharpoonup> city list) \<Rightarrow> (city \<rightharpoonup> city list) \<Rightarrow> run \<Rightarrow> outcome \<times> event list" where
  "bidirectionalSearch_loop g running frontQueue backQueue frontVisited backVisited st =
     (if \<not> (frontQueue \<noteq> [] \<and> backQueue \<noteq> [])
      then no_path st ''No path exists between the cities''
      else if \<not> running (reads st)
      then no_path (read_flag st) ''No path exists between the cities''
      else
        (case expand_front g frontQueue frontVisited backVisited (read_flag st) of
           Inl result \<Rightarrow> result
         | Inr (frontQueue2, frontVisited2, st2) \<Rightarrow>
             (case expand_back g backQueue backVisited frontVisited2 st2 of
                Inl result \<Rightarrow> result
              | Inr (backQueue2, backVisited2, st3) \<Rightarrow>
                  bidirectionalSearch_loop g running frontQueue2 backQueue2
                    frontVisited2 backVisited2 st3)))"
  by pat_completeness auto
termination
  apply (relation "measure (\<lambda>(g, running, frontQueue, backQueue, frontVisited, backVisited, st).
           length frontQueue + card (endpoints g - dom frontVisited) +
           (length backQueue + card (endpoints g - dom backVisited)))")
   apply simp
  subgoal for g running frontQueue backQueue frontVisited backVisited st b fq2 y fv2 st2
              ba bq2 yb bv2 st3
    using expand_front_measure [of g frontQueue frontVisited backVisited "read_flag st"
                                   fq2 fv2 st2]
          expand_back_measure [of g backQueue backVisited fv2 st2 bq2 bv2 st3]
    by (cases yb) auto
  done

definition bidirectionalSearch ::
  "graph \<Rightarrow> (nat \<Rightarrow> bool) \<Rightarrow> city \<Rightarrow> city \<Rightarrow> outcome \<times> event list" where
  "bidirectionalSearch g running start gl =
     bidirectionalSearch_loop g running [(start, [start])] [(gl, [gl])]
       [start \<mapsto> [start]] [gl \<mapsto> [gl]] (start_run 2)"

section \<open>Dispatch\<close>

text \<open>A call either returns a value or throws an \<open>Error\<close> with a message.\<close>

datatype 'a completion = Returned 'a | Thrown string

text \<open>\<open>runAlgo\<close>. \<open>filter(Boolean)\<close> drops the empty string; the bidirectional case passes
  the first goal alone.\<close>

definition runAlgo ::
  "graph \<Rightarrow> (nat \<Rightarrow> bool) \<Rightarrow> string \<Rightarrow> city \<Rightarrow> city \<Rightarrow> int \<Rightarrow> city \<Rightarrow>
   (outcome \<times> event list) completion" where
  "runAlgo g running algorithm startCity gl depthLimit secondaryGoal =
     (let goalsSet = js_Set (filter (\<lambda>x. x \<noteq> []) [gl, secondaryGoal]);
          goalArg = (if length goalsSet \<noteq> 0 then GoalSet goalsSet else Single gl)
      in if algorithm = ''bfs'' then Returned (breadthFirstSearch g running startCity goalArg)
         else if algorithm = ''dfs'' then Returned (depthFirstSearch g running startCity goalArg)
         else if algorithm = ''ucs'' then Returned (uniformCostSearch g running startCity goalArg)
         else if algorithm = ''dls''
           then Returned (depthLimitedSearch g running startCity goalArg depthLimit)
         else if algorithm = ''iddfs''
           then Returned (iterativeDeepeningSearch g running startCity goalArg)
         else if algorithm = ''bidirectional''
           then Returned (bidirectionalSearch g running startCity gl)
         else if algorithm = ''greedy''
           then Returned (greedyBestFirstSearch g running startCity goalArg)
         else if algorithm = ''astar'' then Returned (aStarSearch g running startCity goalArg)
         else Thrown ''Unknown algorithm selected'')"

section \<open>Notions used in the properties\<close>



text \<open>Two identifiers are adjacent when a link joins them, in either order; a route is
  a sequence of identifiers whose consecutive members are adjacent.\<close>

definition adjacent :: "graph \<Rightarrow> city \<Rightarrow> city \<Rightarrow> bool" where
  "adjacent g a b \<longleftrightarrow> getLinkByNodes g a b \<noteq> None"

fun route :: "graph \<Rightarrow> city list \<Rightarrow> bool" where
  "route g (a # b # rest) = (adjacent g a b \<and> route g (b # rest))"
| "route g [a] = True"
| "route g [] = True"

text \<open>A route from \<open>start\<close> to \<open>n\<close> without repetition, and the statement that a path
  returned with success is such a route to a node that passes the goal test \<open>G\<close>.\<close>

definition simple_route :: "graph \<Rightarrow> city \<Rightarrow> city \<Rightarrow> city list \<Rightarrow> bool" where
  "simple_route g start n p \<longleftrightarrow> p \<noteq> [] \<and> hd p = start \<and> last p = n \<and> route g p \<and> distinct p"

definition sound_result :: "graph \<Rightarrow> city \<Rightarrow> (city \<Rightarrow> bool) \<Rightarrow> outcome \<times> event list \<Rightarrow> bool" where
  "sound_result g start G r \<longleftrightarrow>
     (success (fst r) \<longrightarrow>
        (\<exists>p. rpath (fst r) = Some p \<and> G (last p) \<and> simple_route g start (last p) p))"

text \<open>The paths of a queue or stack of breadth-first or depth-first search, and those of a
  frontier of the three sorted strategies (an entry of any of them has the node and the
  path as its first two components).\<close>

definition queue_ok :: "graph \<Rightarrow> city \<Rightarrow> (city \<times> city list) list \<Rightarrow> city set \<Rightarrow> bool" where
  "queue_ok g start q v \<longleftrightarrow> (\<forall>(n, p) \<in> set q. simple_route g start n p \<and> set p \<subseteq> v)"

definition frontier_ok :: "graph \<Rightarrow> city \<Rightarrow> (city \<times> city list \<times> 'a) list \<Rightarrow> city set \<Rightarrow> bool" where
  "frontier_ok g start F V \<longleftrightarrow>
     (\<forall>e \<in> set F. simple_route g start (fst e) (fst (snd e)) \<and> set (butlast (fst (snd e))) \<subseteq> V)"

text \<open>Bidirectional search. For one direction: the queue holds each node with the path
  recorded for it in the map, no node twice; every recorded path is a simple route from
  the seed of that direction, and the nodes before its end were visited and have left
  the queue. For both: a node visited from both sides is still waiting in a queue.\<close>

definition half_ok ::
  "graph \<Rightarrow> city \<Rightarrow> (city \<times> city list) list \<Rightarrow> (city \<rightharpoonup> city list) \<Rightarrow> bool" where
  "half_ok g s q v \<longleftrightarrow>
     (\<forall>(n, p) \<in> set q. v n = Some p) \<and> distinct (map fst q) \<and>
     (\<forall>n p. v n = Some p \<longrightarrow>
        simple_route g s n p \<and> (\<forall>y \<in> set (butlast p). v y \<noteq> None \<and> y \<notin> fst ` set q))"

definition bidi_ok ::
  "graph \<Rightarrow> city \<Rightarrow> city \<Rightarrow> (city \<times> city list) list \<Rightarrow> (city \<times> city list) list \<Rightarrow>
   (city \<rightharpoonup> city list) \<Rightarrow> (city \<rightharpoonup> city list) \<Rightarrow> bool" where
  "bidi_ok g start gl fq bq fv bv \<longleftrightarrow>
     half_ok g start fq fv \<and> half_ok g gl bq bv \<and>
     (\<forall>y. fv y \<noteq> None \<and> bv y \<noteq> None \<longrightarrow> y \<in> fst ` set fq \<or> y \<in> fst ` set bq)"

text \<open>The two properties of a returned path: it leads from the start to a goal along
  roads, and no identifier occurs twice in it.\<close>

definition leads_to_goal :: "graph \<Rightarrow> city \<Rightarrow> goal \<Rightarrow> outcome \<times> event list \<Rightarrow> bool" where
  "leads_to_goal g start goal r \<longleftrightarrow>
     (success (fst r) \<longrightarrow>
        (\<exists>p. rpath (fst r) = Some p \<and> p \<noteq> [] \<and> hd p = start \<and> isGoalNode (last p) goal \<and>
             route g p))"

definition cycle_free :: "outcome \<times> event list \<Rightarrow> bool" where
  "cycle_free r \<longleftrightarrow> (success (fst r) \<longrightarrow> (\<exists>p. rpath (fst r) = Some p \<and> distinct p))"



text \<open>
  A path from \<open>start\<close> together with a cost: the path grows by one neighbour entry of its
  last node at a time, and the cost by the distance of that entry. (Two cities may be
  joined by several links of different distances, so a path may have several costs.)
\<close>

inductive pwalk :: "graph \<Rightarrow> city \<Rightarrow> city list \<Rightarrow> real \<Rightarrow> bool" for g start where
  start: "pwalk g start [start] 0"
| step: "pwalk g start p c \<Longrightarrow> (x, d) \<in> set (getNeighbors g (last p)) \<Longrightarrow>
         pwalk g start (p @ [x]) (c + d)"

text \<open>The result is a success, its path is a path from the start to a goal with the
  reported cost, and no path from the start to a goal has a smaller cost.\<close>

definition optimal_result :: "graph \<Rightarrow> city \<Rightarrow> goal \<Rightarrow> outcome \<times> event list \<Rightarrow> bool" where
  "optimal_result g start goal r \<longleftrightarrow>
     success (fst r) \<and>
     (\<exists>p k. rpath (fst r) = Some p \<and> rcost (fst r) = Some k \<and> pwalk g start p k \<and>
            isGoalNode (last p) goal \<and>
            (\<forall>p' c'. pwalk g start p' c' \<and> isGoalNode (last p') goal \<longrightarrow> k \<le> c'))"

definition nonnegative :: "graph \<Rightarrow> bool" where
  "nonnegative g \<longleftrightarrow> (\<forall>l \<in> set (links g). 0 \<le> distance l)"

text \<open>The heuristic is admissible: at every city of the graph it is at most the cost of
  every path from that city to a goal.\<close>

definition admissible :: "graph \<Rightarrow> goal \<Rightarrow> bool" where
  "admissible g goal \<longleftrightarrow>
     (\<forall>n \<in> node_id ` set (nodes g). \<forall>p c. pwalk g n p c \<and> isGoalNode (last p) goal \<longrightarrow>
        heuristicToGoalOrGoals g n goal \<le> Fin c)"

text \<open>The invariant of the frontier (as a set of triples node, path, cost) and the visited
  set in uniform-cost search: every entry is a path from the start with its cost; the start
  is visited or waits with cost 0; every neighbour of a visited city is visited or waits
  with a cost that is at most the cost of any path through that city; no goal is visited.\<close>

definition opt_inv ::
  "graph \<Rightarrow> city \<Rightarrow> goal \<Rightarrow> (city \<times> city list \<times> real) set \<Rightarrow> city set \<Rightarrow> bool" where
  "opt_inv g start goal T V \<longleftrightarrow>
     (\<forall>e \<in> T. pwalk g start (fst (snd e)) (snd (snd e)) \<and> last (fst (snd e)) = fst e) \<and>
     (start \<in> V \<or> (\<exists>e \<in> T. fst e = start \<and> snd (snd e) \<le> 0)) \<and>
     (\<forall>p c x d. pwalk g start p c \<and> last p \<in> V \<and> (x, d) \<in> set (getNeighbors g (last p)) \<longrightarrow>
        x \<in> V \<or> (\<exists>e \<in> T. fst e = x \<and> snd (snd e) \<le> c + d)) \<and>
     (\<forall>v \<in> V. \<not> isGoalNode v goal)"

text \<open>
  A graph on which the straight-line heuristic is admissible but not consistent. The
  cities S, B and G lie at the same place, and A lies a quarter of the equator away, so the
  heuristic towards G is 0 at S, B and G and \<open>6371 * pi / 2\<close> (about 10007.5) at A. The only
  link at G is B-G with distance 30000, so every path from A to G costs at least 30000: the
  heuristic never overestimates. But it drops by more than the distance 1 along the link
  A-B.
\<close>

definition shortcut :: graph where
  "shortcut =
     \<lparr>nodes = [\<lparr>node_id = ''S'', lat = 0, lon = 0\<rparr>, \<lparr>node_id = ''A'', lat = 0, lon = 90\<rparr>,
               \<lparr>node_id = ''B'', lat = 0, lon = 0\<rparr>, \<lparr>node_id = ''G'', lat = 0, lon = 0\<rparr>],
      links = [\<lparr>source = ''S'', target = ''A'', distance = 1\<rparr>,
               \<lparr>source = ''S'', target = ''B'', distance = 3\<rparr>,
               \<lparr>source = ''A'', target = ''B'', distance = 1\<rparr>,
               \<lparr>source = ''B'', target = ''G'', distance = 30000\<rparr>]\<rparr>"

section \<open>Properties of the path cost\<close>

declare depthFirstSearch_loop.simps [simp del] uniformCostSearch_loop.simps [simp del]
  greedyBestFirstSearch_loop.simps [simp del] aStarSearch_loop.simps [simp del]
  iterativeDeepeningSearch_loop.simps [simp del] bidirectionalSearch_loop.simps [simp del]
  dls.simps [simp del]


lemma calculatePathCost_loop_sum:
  "calculatePathCost_loop g path t = t + sum_list (map (pair_cost g) (zip path (tl path)))"
  by (induction g path t rule: calculatePathCost_loop.induct)
     (simp_all add: pair_cost_def split: option.splits)

text \<open>C8 (as amended). \<open>calculatePathCost\<close> returns a number for every path: the sum, over
  the consecutive pairs of the path, of the distance of the first link joining the pair,
  a pair without a link counting 0. So for a path whose consecutive pairs are all joined
  it is the sum of the distances of those links, and for a path with a pair that is not
  joined it still returns normally.\<close>

theorem calculatePathCost_sum:
  "calculatePathCost g path = sum_list (map (pair_cost g) (zip path (tl path)))"
  unfolding calculatePathCost_def by (simp add: calculatePathCost_loop_sum)

text \<open>C8, counterexample to the claim as stated. In the example graph A and D are not
  joined, and the cost of the path A, D is the ordinary number 0; likewise the path
  A, D, A, B costs 10, the unjoined pairs being skipped.\<close>

theorem calculatePathCost_no_signal:
  "getLinkByNodes fixture ''A'' ''D'' = None \<and>
   calculatePathCost fixture [''A'', ''D''] = 0 \<and>
   calculatePathCost fixture [''A'', ''D'', ''A'', ''B''] = 10"
  by (simp add: getLinkByNodes_def calculatePathCost_def fixture_def)

section \<open>Invariant rules for the loops\<close>

text \<open>One rule for each loop: a property \<open>Q\<close> of the result follows from an invariant
  \<open>I\<close> of the loop variables that every iteration keeps and that implies \<open>Q\<close> at each of
  the exits of the loop.\<close>

lemma bfs_loop_rule:
  assumes "I queue visited st"
    and "\<And>c p q v s q2 v2 s2.
      I ((c, p) # q) v s \<Longrightarrow> running (reads s) \<Longrightarrow> \<not> isGoalNode c goal \<Longrightarrow>
      push_unvisited p (getNeighbors g c) (q, v, explore c (read_flag s)) = (q2, v2, s2) \<Longrightarrow>
      I q2 v2 (emit (Explored c) s2)"
    and "\<And>v s. I [] v s \<Longrightarrow> Q (no_path s ''No path exists between the cities'')"
    and "\<And>c p q v s. I ((c, p) # q) v s \<Longrightarrow> \<not> running (reads s) \<Longrightarrow>
      Q (no_path (read_flag s) ''No path exists between the cities'')"
    and "\<And>c p q v s. I ((c, p) # q) v s \<Longrightarrow> running (reads s) \<Longrightarrow> isGoalNode c goal \<Longrightarrow>
      Q (found (explore c (read_flag s)) p (calculatePathCost g p) (reachedGoalFromPath p))"
  shows "Q (breadthFirstSearch_loop g running goal queue visited st)"
  using assms
proof (induction g running goal queue visited st rule: breadthFirstSearch_loop.induct)
  case (1 g running goal visited st)
  then show ?case by simp
next
  case (2 g running goal currentNode path queue visited st)
  note inv = "2.prems"(1) and step = "2.prems"(2) and rest = "2.prems"(2-5)
  show ?case
  proof (cases "running (reads st)")
    case False
    then show ?thesis using "2.prems"(4) [OF inv] by simp
  next
    case True
    show ?thesis
    proof (cases "isGoalNode currentNode goal")
      case True
      then show ?thesis using "2.prems"(5) [OF inv \<open>running (reads st)\<close>] \<open>running (reads st)\<close>
        by (simp add: Let_def)
    next
      case False
      obtain q2 v2 s2 where push:
        "push_unvisited path (getNeighbors g currentNode)
           (queue, visited, explore currentNode (read_flag st)) = (q2, v2, s2)"
        by (cases "push_unvisited path (getNeighbors g currentNode)
           (queue, visited, explore currentNode (read_flag st))") auto
      have "I q2 v2 (emit (Explored currentNode) s2)"
        by (rule step [OF inv True False push])
      then have "Q (breadthFirstSearch_loop g running goal q2 v2 (emit (Explored currentNode) s2))"
        using "2.IH" [OF _ refl False push [symmetric] refl _ rest] True by simp
      then show ?thesis using True False push by (simp add: Let_def)
    qed
  qed
qed

lemma ucs_loop_rule:
  assumes "I frontier visited st"
    and "\<And>F V s c p k.
      I F V s \<Longrightarrow> F \<noteq> [] \<Longrightarrow> running (reads s) \<Longrightarrow> hd (sort_key (\<lambda>(n, p, c). c) F) = (c, p, k) \<Longrightarrow>
      c \<in> V \<Longrightarrow> I (tl (sort_key (\<lambda>(n, p, c). c) F)) V (read_flag s)"
    and "\<And>F V s c p k F2 s2.
      I F V s \<Longrightarrow> F \<noteq> [] \<Longrightarrow> running (reads s) \<Longrightarrow> hd (sort_key (\<lambda>(n, p, c). c) F) = (c, p, k) \<Longrightarrow>
      c \<notin> V \<Longrightarrow> \<not> isGoalNode c goal \<Longrightarrow>
      ucs_push p k (insert c V) (getNeighbors g c)
        (tl (sort_key (\<lambda>(n, p, c). c) F), explore c (read_flag s)) = (F2, s2) \<Longrightarrow>
      I F2 (insert c V) (emit (Explored c) s2)"
    and "\<And>V s. I [] V s \<Longrightarrow> Q (no_path s ''No path exists between the cities'')"
    and "\<And>F V s. I F V s \<Longrightarrow> F \<noteq> [] \<Longrightarrow> \<not> running (reads s) \<Longrightarrow>
      Q (no_path (read_flag s) ''No path exists between the cities'')"
    and "\<And>F V s c p k.
      I F V s \<Longrightarrow> F \<noteq> [] \<Longrightarrow> running (reads s) \<Longrightarrow> hd (sort_key (\<lambda>(n, p, c). c) F) = (c, p, k) \<Longrightarrow>
      c \<notin> V \<Longrightarrow> isGoalNode c goal \<Longrightarrow>
      Q (found (explore c (read_flag s)) p (k) (reachedGoalFromPath p))"
  shows "Q (uniformCostSearch_loop g running goal frontier visited st)"
  using assms
proof (induction g running goal frontier visited st rule: uniformCostSearch_loop.induct)
  case (1 g running goal frontier visited st)
  note inv = "1.prems"(1) and rest = "1.prems"(2-6)
  let ?sorted = "sort_key (\<lambda>(n, p, c). c) frontier"
  show ?case
  proof (cases "frontier = []")
    case True
    then show ?thesis using "1.prems"(4) [of visited st] inv
      by (subst uniformCostSearch_loop.simps) simp
  next
    case ne: False
    show ?thesis
    proof (cases "running (reads st)")
      case False
      then show ?thesis using "1.prems"(5) [OF inv ne] ne
        by (subst uniformCostSearch_loop.simps) simp
    next
      case run: True
      obtain c p k where hd: "hd ?sorted = (c, p, k)"
        by (cases "hd ?sorted") auto
      show ?thesis
      proof (cases "c \<in> visited")
        case True
        have "I (tl ?sorted) visited (read_flag st)"
          by (rule "1.prems"(2) [OF inv ne run hd True])
        then have "Q (uniformCostSearch_loop g running goal (tl ?sorted) visited (read_flag st))"
          using "1.IH"(1) [OF ne _ refl hd [symmetric] refl True _ rest] run by simp
        then show ?thesis using ne run hd True
          by (subst uniformCostSearch_loop.simps) (simp add: Let_def)
      next
        case nv: False
        show ?thesis
        proof (cases "isGoalNode c goal")
          case True
          then show ?thesis using "1.prems"(6) [OF inv ne run hd nv True] ne run hd nv
            by (subst uniformCostSearch_loop.simps) (simp add: Let_def)
        next
          case ng: False
          obtain F2 s2 where push:
            "ucs_push p k (insert c visited) (getNeighbors g c)
               (tl ?sorted, explore c (read_flag st)) = (F2, s2)"
            by (cases "ucs_push p k (insert c visited) (getNeighbors g c)
               (tl ?sorted, explore c (read_flag st))") auto
          have "I F2 (insert c visited) (emit (Explored c) s2)"
            by (rule "1.prems"(3) [OF inv ne run hd nv ng push])
          then have "Q (uniformCostSearch_loop g running goal F2 (insert c visited)
                         (emit (Explored c) s2))"
            using "1.IH"(2) [OF ne _ refl hd [symmetric] refl nv refl refl ng
                               push [symmetric] _ rest] run
            by simp
          then show ?thesis using ne run hd nv ng push
            by (subst uniformCostSearch_loop.simps) (simp add: Let_def)
        qed
      qed
    qed
  qed
qed

lemma greedy_loop_rule:
  assumes "I frontier visited st"
    and "\<And>F V s c p h.
      I F V s \<Longrightarrow> F \<noteq> [] \<Longrightarrow> running (reads s) \<Longrightarrow> hd (sort_key (\<lambda>(n, p, h). h) F) = (c, p, h) \<Longrightarrow>
      c \<in> V \<Longrightarrow> I (tl (sort_key (\<lambda>(n, p, h). h) F)) V (read_flag s)"
    and "\<And>F V s c p h F2 s2.
      I F V s \<Longrightarrow> F \<noteq> [] \<Longrightarrow> running (reads s) \<Longrightarrow> hd (sort_key (\<lambda>(n, p, h). h) F) = (c, p, h) \<Longrightarrow>
      c \<notin> V \<Longrightarrow> \<not> isGoalNode c goal \<Longrightarrow>
      greedy_push g goal p (insert c V) (getNeighbors g c)
        (tl (sort_key (\<lambda>(n, p, h). h) F), explore c (read_flag s)) = (F2, s2) \<Longrightarrow>
      I F2 (insert c V) (emit (Explored c) s2)"
    and "\<And>V s. I [] V s \<Longrightarrow> Q (no_path s ''No path exists between the cities'')"
    and "\<And>F V s. I F V s \<Longrightarrow> F \<noteq> [] \<Longrightarrow> \<not> running (reads s) \<Longrightarrow>
      Q (no_path (read_flag s) ''No path exists between the cities'')"
    and "\<And>F V s c p h.
      I F V s \<Longrightarrow> F \<noteq> [] \<Longrightarrow> running (reads s) \<Longrightarrow> hd (sort_key (\<lambda>(n, p, h). h) F) = (c, p, h) \<Longrightarrow>
      c \<notin> V \<Longrightarrow> isGoalNode c goal \<Longrightarrow>
      Q (found (explore c (read_flag s)) p (calculatePathCost g p) (reachedGoalFromPath p))"
  shows "Q (greedyBestFirstSearch_loop g running goal frontier visited st)"
  using assms
proof (induction g running goal frontier visited st rule: greedyBestFirstSearch_loop.induct)
  case (1 g running goal frontier visited st)
  note inv = "1.prems"(1) and rest = "1.prems"(2-6)
  let ?sorted = "sort_key (\<lambda>(n, p, h). h) frontier"
  show ?case
  proof (cases "frontier = []")
    case True
    then show ?thesis using "1.prems"(4) [of visited st] inv
      by (subst greedyBestFirstSearch_loop.simps) simp
  next
    case ne: False
    show ?thesis
    proof (cases "running (reads st)")
      case False
      then show ?thesis using "1.prems"(5) [OF inv ne] ne
        by (subst greedyBestFirstSearch_loop.simps) simp
    next
      case run: True
      obtain c p h where hd: "hd ?sorted = (c, p, h)"
        by (cases "hd ?sorted") auto
      show ?thesis
      proof (cases "c \<in> visited")
        case True
        have "I (tl ?sorted) visited (read_flag st)"
          by (rule "1.prems"(2) [OF inv ne run hd True])
        then have "Q (greedyBestFirstSearch_loop g running goal (tl ?sorted) visited (read_flag st))"
          using "1.IH"(1) [OF ne _ refl hd [symmetric] refl True _ rest] run by simp
        then show ?thesis using ne run hd True
          by (subst greedyBestFirstSearch_loop.simps) (simp add: Let_def)
      next
        case nv: False
        show ?thesis
        proof (cases "isGoalNode c goal")
          case True
          then show ?thesis using "1.prems"(6) [OF inv ne run hd nv True] ne run hd nv
            by (subst greedyBestFirstSearch_loop.simps) (simp add: Let_def)
        next
          case ng: False
          obtain F2 s2 where push:
            "greedy_push g goal p (insert c visited) (getNeighbors g c)
               (tl ?sorted, explore c (read_flag st)) = (F2, s2)"
            by (cases "greedy_push g goal p (insert c visited) (getNeighbors g c)
               (tl ?sorted, explore c (read_flag st))") auto
          have "I F2 (insert c visited) (emit (Explored c) s2)"
            by (rule "1.prems"(3) [OF inv ne run hd nv ng push])
          then have "Q (greedyBestFirstSearch_loop g running goal F2 (insert c visited)
                         (emit (Explored c) s2))"
            using "1.IH"(2) [OF ne _ refl hd [symmetric] refl nv refl refl ng
                               push [symmetric] _ rest] run
            by simp
          then show ?thesis using ne run hd nv ng push
            by (subst greedyBestFirstSearch_loop.simps) (simp add: Let_def)
        qed
      qed
    qed
  qed
qed

lemma astar_loop_rule:
  assumes "I frontier visited st"
    and "\<And>F V s c p k h f.
      I F V s \<Longrightarrow> F \<noteq> [] \<Longrightarrow> running (reads s) \<Longrightarrow> hd (sort_key (\<lambda>(n, p, c, h, f). f) F) = (c, p, k, h, f) \<Longrightarrow>
      c \<in> V \<Longrightarrow> I (tl (sort_key (\<lambda>(n, p, c, h, f). f) F)) V (read_flag s)"
    and "\<And>F V s c p k h f F2 s2.
      I F V s \<Longrightarrow> F \<noteq> [] \<Longrightarrow> running (reads s) \<Longrightarrow> hd (sort_key (\<lambda>(n, p, c, h, f). f) F) = (c, p, k, h, f) \<Longrightarrow>
      c \<notin> V \<Longrightarrow> \<not> isGoalNode c goal \<Longrightarrow>
      astar_push g goal p k (insert c V) (getNeighbors g c)
        (tl (sort_key (\<lambda>(n, p, c, h, f). f) F), explore c (read_flag s)) = (F2, s2) \<Longrightarrow>
      I F2 (insert c V) (emit (Explored c) s2)"
    and "\<And>V s. I [] V s \<Longrightarrow> Q (no_path s ''No path exists between the cities'')"
    and "\<And>F V s. I F V s \<Longrightarrow> F \<noteq> [] \<Longrightarrow> \<not> running (reads s) \<Longrightarrow>
      Q (no_path (read_flag s) ''No path exists between the cities'')"
    and "\<And>F V s c p k h f.
      I F V s \<Longrightarrow> F \<noteq> [] \<Longrightarrow> running (reads s) \<Longrightarrow> hd (sort_key (\<lambda>(n, p, c, h, f). f) F) = (c, p, k, h, f) \<Longrightarrow>
      c \<notin> V \<Longrightarrow> isGoalNode c goal \<Longrightarrow>
      Q (found (explore c (read_flag s)) p (k) (reachedGoalFromPath p))"
  shows "Q (aStarSearch_loop g running goal frontier visited st)"
  using assms
proof (induction g running goal frontier visited st rule: aStarSearch_loop.induct)
  case (1 g running goal frontier visited st)
  note inv = "1.prems"(1) and rest = "1.prems"(2-6)
  let ?sorted = "sort_key (\<lambda>(n, p, c, h, f). f) frontier"
  show ?case
  proof (cases "frontier = []")
    case True
    then show ?thesis using "1.prems"(4) [of visited st] inv
      by (subst aStarSearch_loop.simps) simp
  next
    case ne: False
    show ?thesis
    proof (cases "running (reads st)")
      case False
      then show ?thesis using "1.prems"(5) [OF inv ne] ne
        by (subst aStarSearch_loop.simps) simp
    next
      case run: True
      obtain c p k h f where hd: "hd ?sorted = (c, p, k, h, f)"
        by (cases "hd ?sorted") auto
      show ?thesis
      proof (cases "c \<in> visited")
        case True
        have "I (tl ?sorted) visited (read_flag st)"
          by (rule "1.prems"(2) [OF inv ne run hd True])
        then have "Q (aStarSearch_loop g running goal (tl ?sorted) visited (read_flag st))"
          using "1.IH"(1) [OF ne _ refl hd [symmetric] refl refl refl True _ rest] run by simp
        then show ?thesis using ne run hd True
          by (subst aStarSearch_loop.simps) (simp add: Let_def)
      next
        case nv: False
        show ?thesis
        proof (cases "isGoalNode c goal")
          case True
          then show ?thesis using "1.prems"(6) [OF inv ne run hd nv True] ne run hd nv
            by (subst aStarSearch_loop.simps) (simp add: Let_def)
        next
          case ng: False
          obtain F2 s2 where push:
            "astar_push g goal p k (insert c visited) (getNeighbors g c)
               (tl ?sorted, explore c (read_flag st)) = (F2, s2)"
            by (cases "astar_push g goal p k (insert c visited) (getNeighbors g c)
               (tl ?sorted, explore c (read_flag st))") auto
          have "I F2 (insert c visited) (emit (Explored c) s2)"
            by (rule "1.prems"(3) [OF inv ne run hd nv ng push])
          then have "Q (aStarSearch_loop g running goal F2 (insert c visited)
                         (emit (Explored c) s2))"
            using "1.IH"(2) [OF ne _ refl hd [symmetric] refl refl refl nv refl refl ng
                               push [symmetric] _ rest] run
            by simp
          then show ?thesis using ne run hd nv ng push
            by (subst aStarSearch_loop.simps) (simp add: Let_def)
        qed
      qed
    qed
  qed
qed

lemma dfs_loop_rule:
  assumes "I stack visited st"
    and "\<And>S V s c p S2 V2 s2.
      I S V s \<Longrightarrow> S \<noteq> [] \<Longrightarrow> running (reads s) \<Longrightarrow> last S = (c, p) \<Longrightarrow>
      \<not> isGoalNode c goal \<Longrightarrow>
      push_unvisited p (rev (getNeighbors g c)) (butlast S, V, explore c (read_flag s)) =
        (S2, V2, s2) \<Longrightarrow>
      I S2 V2 (emit (Explored c) s2)"
    and "\<And>V s. I [] V s \<Longrightarrow> Q (no_path s ''No path exists between the cities'')"
    and "\<And>S V s. I S V s \<Longrightarrow> S \<noteq> [] \<Longrightarrow> \<not> running (reads s) \<Longrightarrow>
      Q (no_path (read_flag s) ''No path exists between the cities'')"
    and "\<And>S V s c p.
      I S V s \<Longrightarrow> S \<noteq> [] \<Longrightarrow> running (reads s) \<Longrightarrow> last S = (c, p) \<Longrightarrow>
      isGoalNode c goal \<Longrightarrow>
      Q (found (explore c (read_flag s)) p (calculatePathCost g p) (reachedGoalFromPath p))"
  shows "Q (depthFirstSearch_loop g running goal stack visited st)"
  using assms
proof (induction g running goal stack visited st rule: depthFirstSearch_loop.induct)
  case (1 g running goal stack visited st)
  note inv = "1.prems"(1) and rest = "1.prems"(2-5)
  show ?case
  proof (cases "stack = []")
    case True
    then show ?thesis using "1.prems"(3) [of visited st] inv
      by (subst depthFirstSearch_loop.simps) simp
  next
    case ne: False
    show ?thesis
    proof (cases "running (reads st)")
      case False
      then show ?thesis using "1.prems"(4) [OF inv ne] ne
        by (subst depthFirstSearch_loop.simps) simp
    next
      case run: True
      obtain c p where last: "last stack = (c, p)"
        by (cases "last stack") auto
      show ?thesis
      proof (cases "isGoalNode c goal")
        case True
        then show ?thesis using "1.prems"(5) [OF inv ne run last True] ne run last
          by (subst depthFirstSearch_loop.simps) (simp add: Let_def)
      next
        case ng: False
        obtain S2 V2 s2 where push:
          "push_unvisited p (rev (getNeighbors g c))
             (butlast stack, visited, explore c (read_flag st)) = (S2, V2, s2)"
          by (cases "push_unvisited p (rev (getNeighbors g c))
             (butlast stack, visited, explore c (read_flag st))") auto
        have "I S2 V2 (emit (Explored c) s2)"
          by (rule "1.prems"(2) [OF inv ne run last ng push])
        then have "Q (depthFirstSearch_loop g running goal S2 V2 (emit (Explored c) s2))"
          using "1.IH" [OF ne _ last [symmetric] refl ng push [symmetric] refl _ rest] run
          by simp
        then show ?thesis using ne run last ng push
          by (subst depthFirstSearch_loop.simps) (simp add: Let_def)
      qed
    qed
  qed
qed

lemma bidi_loop_rule:
  assumes "I frontQueue backQueue frontVisited backVisited st"
    and "\<And>fq bq fv bv s fq2 fv2 s2 bq2 bv2 s3.
      I fq bq fv bv s \<Longrightarrow> fq \<noteq> [] \<Longrightarrow> bq \<noteq> [] \<Longrightarrow> running (reads s) \<Longrightarrow>
      expand_front g fq fv bv (read_flag s) = Inr (fq2, fv2, s2) \<Longrightarrow>
      expand_back g bq bv fv2 s2 = Inr (bq2, bv2, s3) \<Longrightarrow>
      I fq2 bq2 fv2 bv2 s3"
    and "\<And>fq bq fv bv s. I fq bq fv bv s \<Longrightarrow> fq = [] \<or> bq = [] \<Longrightarrow>
      Q (no_path s ''No path exists between the cities'')"
    and "\<And>fq bq fv bv s. I fq bq fv bv s \<Longrightarrow> fq \<noteq> [] \<Longrightarrow> bq \<noteq> [] \<Longrightarrow>
      \<not> running (reads s) \<Longrightarrow> Q (no_path (read_flag s) ''No path exists between the cities'')"
    and "\<And>fq bq fv bv s r. I fq bq fv bv s \<Longrightarrow> fq \<noteq> [] \<Longrightarrow> bq \<noteq> [] \<Longrightarrow>
      running (reads s) \<Longrightarrow> expand_front g fq fv bv (read_flag s) = Inl r \<Longrightarrow> Q r"
    and "\<And>fq bq fv bv s fq2 fv2 s2 r. I fq bq fv bv s \<Longrightarrow> fq \<noteq> [] \<Longrightarrow> bq \<noteq> [] \<Longrightarrow>
      running (reads s) \<Longrightarrow> expand_front g fq fv bv (read_flag s) = Inr (fq2, fv2, s2) \<Longrightarrow>
      expand_back g bq bv fv2 s2 = Inl r \<Longrightarrow> Q r"
  shows "Q (bidirectionalSearch_loop g running frontQueue backQueue frontVisited backVisited st)"
  using assms
proof (induction g running frontQueue backQueue frontVisited backVisited st
        rule: bidirectionalSearch_loop.induct)
  case (1 g running frontQueue backQueue frontVisited backVisited st)
  note inv = "1.prems"(1) and rest = "1.prems"(2-6)
  show ?case
  proof (cases "frontQueue = [] \<or> backQueue = []")
    case True
    then show ?thesis using "1.prems"(3) [OF inv]
      by (subst bidirectionalSearch_loop.simps) auto
  next
    case False
    then have nf: "frontQueue \<noteq> []" and nb: "backQueue \<noteq> []" by simp_all
    show ?thesis
    proof (cases "running (reads st)")
      case False
      then show ?thesis using "1.prems"(4) [OF inv nf nb] nf nb
        by (subst bidirectionalSearch_loop.simps) simp
    next
      case run: True
      show ?thesis
      proof (cases "expand_front g frontQueue frontVisited backVisited (read_flag st)")
        case (Inl r)
        then show ?thesis using "1.prems"(5) [OF inv nf nb run Inl] nf nb run
          by (subst bidirectionalSearch_loop.simps) simp
      next
        case (Inr b)
        obtain fq2 fv2 s2 where b: "b = (fq2, fv2, s2)" by (cases b) auto
        note front = Inr [unfolded b]
        show ?thesis
        proof (cases "expand_back g backQueue backVisited fv2 s2")
          case (Inl r)
          then show ?thesis using "1.prems"(6) [OF inv nf nb run front Inl] nf nb run front
            by (subst bidirectionalSearch_loop.simps) simp
        next
          case (Inr b2)
          obtain bq2 bv2 s3 where b2: "b2 = (bq2, bv2, s3)" by (cases b2) auto
          note bck = Inr [unfolded b2]
          have "I fq2 bq2 fv2 bv2 s3"
            by (rule "1.prems"(2) [OF inv nf nb run front bck])
          then have "Q (bidirectionalSearch_loop g running fq2 bq2 fv2 bv2 s3)"
            using "1.IH" [OF _ _ front refl refl bck refl refl _ rest] nf nb run by simp
          then show ?thesis using nf nb run front bck
            by (subst bidirectionalSearch_loop.simps) simp
        qed
      qed
    qed
  qed
qed

section \<open>Unknown cities in the heuristic\<close>

lemma not_Infinity_less: "\<not> Infinity < (m :: hnum)"
  by (cases m) (simp_all add: less_hnum_def)

lemma hnum_le_Infinity: "(x :: hnum) \<le> Infinity"
  by (cases x) simp_all

lemma getNodeById_None: "getNodeById g i = None \<longleftrightarrow> i \<notin> node_id ` set (nodes g)"
  by (auto simp: getNodeById_def find_None_iff)

lemma sld_unknown:
  "city1Id \<notin> node_id ` set (nodes g) \<or> city2Id \<notin> node_id ` set (nodes g) \<Longrightarrow>
   calculateStraightLineDistance g city1Id city2Id = Infinity"
  by (auto simp: calculateStraightLineDistance_def getNodeById_None [symmetric]
           split: option.splits)

lemma minH_loop_unknown:
  "nodeId \<notin> node_id ` set (nodes g) \<Longrightarrow> minH_loop g nodeId gs m = m"
  by (induction gs arbitrary: m) (simp_all add: sld_unknown not_Infinity_less)

lemma heuristic_unknown:
  "nodeId \<notin> node_id ` set (nodes g) \<Longrightarrow> heuristicToGoalOrGoals g nodeId goalOrSet = Infinity"
  by (cases goalOrSet) (simp_all add: heuristicToGoalOrGoals_def sld_unknown minH_loop_unknown)

text \<open>C10. \<open>calculateStraightLineDistance\<close> returns \<open>Infinity\<close> when either identifier
  names no city of the graph; the heuristic to an empty set of goals is \<open>Infinity\<close>; the
  heuristic of an unknown node is \<open>Infinity\<close> for every goal argument, so the entry that
  the greedy and the A* strategy push for such a neighbour has heuristic (and f-score)
  \<open>Infinity\<close>, the greatest rank. The strategies themselves are total functions: their
  loops were shown to terminate on every graph.\<close>

theorem unknown_city_is_infinitely_far:
  "(city1Id \<notin> node_id ` set (nodes g) \<or> city2Id \<notin> node_id ` set (nodes g) \<longrightarrow>
      calculateStraightLineDistance g city1Id city2Id = Infinity) \<and>
   heuristicToGoalOrGoals g nodeId (GoalSet []) = Infinity \<and>
   (nodeId \<notin> node_id ` set (nodes g) \<longrightarrow>
      heuristicToGoalOrGoals g nodeId goalOrSet = Infinity \<and>
      (\<forall>e \<in> set (fst (greedy_push g goalOrSet path visited [(nodeId, d)] (frontier, st))) - set frontier.
         snd (snd e) = Infinity) \<and>
      (\<forall>e \<in> set (fst (astar_push g goalOrSet path cost visited [(nodeId, d)] (frontierA, st))) - set frontierA.
         snd (snd (snd (snd e))) = Infinity)) \<and>
   (\<forall>x. x \<le> Infinity)"
proof -
  have "heuristicToGoalOrGoals g nodeId (GoalSet []) = Infinity"
    by (simp add: heuristicToGoalOrGoals_def)
  then show ?thesis
    by (auto simp: sld_unknown heuristic_unknown hnum_le_Infinity Let_def)
qed

theorem unknown_city_is_infinitely_far_witness:
  "calculateStraightLineDistance fixture ''Z'' ''A'' = Infinity \<and>
   calculateStraightLineDistance fixture ''A'' ''Z'' = Infinity \<and>
   heuristicToGoalOrGoals fixture ''Z'' (GoalSet [''A'', ''C'']) = Infinity \<and>
   fst (astar_push fixture (Single ''C'') [''A''] 0 {''A''} [(''Z'', 7)] ([], start_run 1)) =
     [(''Z'', [''A'', ''Z''], 7, Infinity, Infinity)]"
proof -
  have Z: "''Z'' \<notin> node_id ` set (nodes fixture)" by (simp add: fixture_def)
  show ?thesis
    using unknown_city_is_infinitely_far [of "''Z''" fixture "''A''" "''Z''"
            "GoalSet [''A'', ''C'']" "[''A'']" "{''A''}" 7 "[]" "start_run 1" 0 "[]"]
          unknown_city_is_infinitely_far [of "''A''" fixture "''Z''" "''Z''"
            "Single ''C''" "[''A'']" "{''A''}" 7 "[]" "start_run 1" 0 "[]"]
          Z
    by (simp add: Let_def)
qed

section \<open>Dispatch of the bidirectional strategy\<close>

lemma runAlgo_bidirectional:
  "runAlgo g running ''bidirectional'' startCity gl depthLimit secondaryGoal =
   Returned (bidirectionalSearch g running startCity gl)"
  by (simp add: runAlgo_def Let_def)

text \<open>C9 (as amended). With the bidirectional strategy \<open>runAlgo\<close> rejects nothing: for
  every secondary goal, empty or not, it runs \<open>bidirectionalSearch\<close> from the start city
  to the first goal alone and returns its outcome. The secondary goal is ignored, so the
  bidirectional search itself always runs with exactly one goal.\<close>

theorem runAlgo_bidirectional_ignores_secondary_goal:
  "runAlgo g running ''bidirectional'' startCity gl depthLimit secondaryGoal =
   Returned (bidirectionalSearch g running startCity gl)"
  by (rule runAlgo_bidirectional)

text \<open>C9, counterexample to the claim as stated. On the example graph, the bidirectional
  strategy called from A with the two goals C and B is not rejected: the call returns
  the successful outcome of the search from A to C.\<close>

theorem runAlgo_bidirectional_two_goals_not_rejected:
  "runAlgo fixture (\<lambda>k. True) ''bidirectional'' ''A'' ''C'' 5 ''B'' =
   Returned
     (\<lparr>success = True, rpath = Some [''A'', ''C''], rcost = Some 20, nodesExplored = 2,
       nodesDiscovered = 4, edgesProcessed = 2, reachedGoal = None, reason = None\<rparr>,
      [Exploring ''A'', Explored ''A'', Exploring ''C'', PathShown [''A'', ''C'']])"
  unfolding runAlgo_bidirectional by code_simp

section \<open>Failure reasons of depth-limited search\<close>

text \<open>C6, the code at a failing input. On the example graph with depth limit 1 and the
  unreachable goal D, the call of \<open>dls\<close> for B at depth 1 is cut off by the bound and
  returns the reason ``Depth limit reached'', but the caller drops that result, and the
  search from A reports ``No path found within depth limit''. That is the same reason as
  for the search from the isolated city D, where no branch ever reaches the bound.\<close>

theorem depthLimitedSearch_drops_cutoff_reason:
  "d_reason (fst (dls fixture (\<lambda>k. True) (Single ''D'') 1 ''B'' [''A'', ''B''] 1
                    \<lparr>reads = 1, explored = 1, discovered = 1, edges = 1,
                     events = [Exploring ''A'']\<rparr>)) = Some ''Depth limit reached'' \<and>
   fst (depthLimitedSearch fixture (\<lambda>k. True) ''A'' (Single ''D'') 1) =
     \<lparr>success = False, rpath = None, rcost = None, nodesExplored = 3, nodesDiscovered = 3,
      edgesProcessed = 2, reachedGoal = None,
      reason = Some ''No path found within depth limit''\<rparr> \<and>
   fst (depthLimitedSearch fixture (\<lambda>k. True) ''D'' (Single ''A'') 1) =
     \<lparr>success = False, rpath = None, rcost = None, nodesExplored = 1, nodesDiscovered = 1,
      edgesProcessed = 0, reachedGoal = None,
      reason = Some ''No path found within depth limit''\<rparr>"
  by code_simp

section \<open>Cancellation and the count of explored nodes\<close>



































































section \<open>Returned paths\<close>

lemma neighbors_of_iff:
  "x \<in> fst ` set (neighbors_of ls c) \<longleftrightarrow>
   (\<exists>l \<in> set ls. (source l = c \<and> target l = x) \<or> (source l = x \<and> target l = c))"
  by (induction ls) auto

lemma adjacent_iff: "adjacent g a b \<longleftrightarrow> b \<in> fst ` set (getNeighbors g a)"
  unfolding adjacent_def getLinkByNodes_def getNeighbors_def neighbors_of_iff
  by (auto simp: find_None_iff)

lemma adjacent_sym: "adjacent g a b \<longleftrightarrow> adjacent g b a"
  unfolding adjacent_def getLinkByNodes_def by (auto simp: find_None_iff)

lemma route_snoc: "route g (p @ [x]) \<longleftrightarrow> route g p \<and> (p = [] \<or> adjacent g (last p) x)"
  by (induction g p rule: route.induct) auto

lemma route_append:
  "route g (p @ q) \<longleftrightarrow> route g p \<and> route g q \<and> (p = [] \<or> q = [] \<or> adjacent g (last p) (hd q))"
proof (induction q arbitrary: p rule: rev_induct)
  case Nil
  then show ?case by simp
next
  case (snoc x q)
  have "route g (p @ q @ [x]) \<longleftrightarrow> route g ((p @ q) @ [x])" by simp
  also have "\<dots> \<longleftrightarrow> route g (p @ q) \<and> (p @ q = [] \<or> adjacent g (last (p @ q)) x)"
    by (rule route_snoc)
  finally show ?case using snoc [of p] by (cases "q = []") (auto simp: route_snoc)
qed

lemma route_rev: "route g (rev p) \<longleftrightarrow> route g p"
proof (induction g p rule: route.induct)
  case (1 g a b rest)
  have "route g (rev (a # b # rest)) \<longleftrightarrow> route g (rev (b # rest) @ [a])" by simp
  also have "\<dots> \<longleftrightarrow> route g (rev (b # rest)) \<and> adjacent g (last (rev (b # rest))) a"
    unfolding route_snoc by simp
  also have "last (rev (b # rest)) = b" by (simp add: last_rev)
  finally show ?case using 1 adjacent_sym [of g a b] by auto
qed simp_all

lemma simple_route_start: "simple_route g start start [start]"
  by (simp add: simple_route_def)

lemma simple_route_snoc:
  assumes "simple_route g start c p" and "adjacent g c x" and "x \<notin> set p"
  shows "simple_route g start x (p @ [x])"
  using assms by (auto simp: simple_route_def route_snoc)

lemma sound_no_path: "sound_result g start G (no_path s r)"
  by (simp add: sound_result_def no_path_def)

lemma sound_found:
  "simple_route g start c p \<Longrightarrow> G c \<Longrightarrow> sound_result g start G (found s p k rg)"
  by (auto simp: sound_result_def found_def simple_route_def)

text \<open>Breadth-first and depth-first search: every path on the queue or stack is a
  simple route whose nodes were all visited.\<close>

lemma push_unvisited_entries:
  "push_unvisited p nbrs (q, v, s) = (q2, v2, s2) \<Longrightarrow>
   v \<subseteq> v2 \<and>
   (\<forall>e \<in> set q2. e \<in> set q \<or> (\<exists>x \<in> fst ` set nbrs. x \<notin> v \<and> x \<in> v2 \<and> e = (x, p @ [x])))"
proof (induction nbrs arbitrary: q v s)
  case Nil
  then show ?case by simp
next
  case (Cons nb rest)
  show ?case
  proof (cases "fst nb \<in> v")
    case True
    then have "push_unvisited p rest (q, v, s\<lparr>edges := edges s + 1\<rparr>) = (q2, v2, s2)"
      using Cons.prems by (simp add: Let_def)
    from Cons.IH [OF this] show ?thesis by auto
  next
    case False
    then have "push_unvisited p rest
                 (q @ [(fst nb, p @ [fst nb])], insert (fst nb) v,
                  s\<lparr>edges := edges s + 1, discovered := discovered s + 1\<rparr>) = (q2, v2, s2)"
      using Cons.prems by (simp add: Let_def)
    from Cons.IH [OF this] False show ?thesis by auto
  qed
qed

lemma queue_ok_push:
  assumes "queue_ok g start q0 v" and "set q \<subseteq> set q0" and "(c, p) \<in> set q0"
    and "push_unvisited p nbrs (q, v, s) = (q2, v2, s2)"
    and "fst ` set nbrs \<subseteq> fst ` set (getNeighbors g c)"
  shows "queue_ok g start q2 v2"
  unfolding queue_ok_def
proof (intro ballI, clarify)
  fix n p' assume e: "(n, p') \<in> set q2"
  note eff = push_unvisited_entries [OF assms(4)]
  have cp: "simple_route g start c p" "set p \<subseteq> v"
    using assms(1,3) by (auto simp: queue_ok_def)
  from eff e consider "(n, p') \<in> set q"
    | x where "x \<in> fst ` set nbrs" "x \<notin> v" "x \<in> v2" "(n, p') = (x, p @ [x])"
    by blast
  then show "simple_route g start n p' \<and> set p' \<subseteq> v2"
  proof cases
    case 1
    then have "(n, p') \<in> set q0" using assms(2) by auto
    then have "simple_route g start n p' \<and> set p' \<subseteq> v"
      using assms(1) unfolding queue_ok_def by blast
    then show ?thesis using eff by auto
  next
    case 2
    then have "adjacent g c x" using assms(5) by (auto simp: adjacent_iff)
    moreover have "x \<notin> set p" using 2(2) cp(2) by auto
    ultimately have "simple_route g start x (p @ [x])" using cp(1) by (intro simple_route_snoc)
    then show ?thesis using 2 cp(2) eff by auto
  qed
qed

lemma bfs_sound:
  "queue_ok g start queue visited \<Longrightarrow>
   sound_result g start (\<lambda>n. isGoalNode n goal)
     (breadthFirstSearch_loop g running goal queue visited st)"
proof (rule bfs_loop_rule [where I = "\<lambda>q v s. queue_ok g start q v"], goal_cases)
  case (2 c p q v s q2 v2 s2)
  show ?case
    by (rule queue_ok_push [OF 2(2) _ _ 2(5)]) auto
next
  case (5 c p q v s)
  then show ?case by (intro sound_found [of g start c]) (auto simp: queue_ok_def)
qed (simp_all add: sound_no_path)

lemma dfs_sound:
  "queue_ok g start stack visited \<Longrightarrow>
   sound_result g start (\<lambda>n. isGoalNode n goal)
     (depthFirstSearch_loop g running goal stack visited st)"
proof (rule dfs_loop_rule [where I = "\<lambda>q v s. queue_ok g start q v"], goal_cases)
  case (2 S V s c p S2 V2 s2)
  have "(c, p) \<in> set S" using 2(3,5) last_in_set by metis
  moreover have "set (butlast S) \<subseteq> set S" by (auto dest: in_set_butlastD)
  ultimately show ?case
    by (intro queue_ok_push [OF 2(2) _ _ 2(7)]) auto
next
  case (5 S V s c p)
  have "(c, p) \<in> set S" using 5(3,5) last_in_set by metis
  then show ?case using 5 by (intro sound_found [of g start c]) (auto simp: queue_ok_def)
qed (simp_all add: sound_no_path)

lemma queue_ok_start: "queue_ok g start [(start, [start])] {start}"
  by (simp add: queue_ok_def simple_route_start)

text \<open>Uniform-cost, greedy and A* search: every path on the frontier is a simple route
  whose nodes, but for the last, were all visited.\<close>

lemma frontier_ok_stale:
  "frontier_ok g start F V \<Longrightarrow> set F' \<subseteq> set F \<Longrightarrow> frontier_ok g start F' V"
  unfolding frontier_ok_def by blast

lemma frontier_ok_expand:
  assumes ok: "frontier_ok g start F V" and e: "e \<in> set F" "fst e = c" "fst (snd e) = p"
    and sub: "set F1 \<subseteq> set F"
    and F2: "F2 = F1 @ map mk (filter (\<lambda>nb. fst nb \<notin> insert c V) (getNeighbors g c))"
    and mk: "\<And>nb. fst (mk nb) = fst nb \<and> fst (snd (mk nb)) = p @ [fst nb]"
  shows "frontier_ok g start F2 (insert c V)"
  unfolding frontier_ok_def
proof
  fix e' assume "e' \<in> set F2"
  then consider "e' \<in> set F1"
    | nb where "nb \<in> set (getNeighbors g c)" "fst nb \<notin> insert c V" "e' = mk nb"
    unfolding F2 by auto
  then show "simple_route g start (fst e') (fst (snd e')) \<and>
             set (butlast (fst (snd e'))) \<subseteq> insert c V"
  proof cases
    case 1
    then have "e' \<in> set F" using sub by auto
    then show ?thesis using ok unfolding frontier_ok_def by blast
  next
    case 2
    have cp: "simple_route g start c p" "set (butlast p) \<subseteq> V"
      using ok e unfolding frontier_ok_def by blast+
    then have "p \<noteq> []" "last p = c" by (simp_all add: simple_route_def)
    then have "set p = insert c (set (butlast p))"
      by (induction p) auto
    then have setp: "set p \<subseteq> insert c V" using cp(2) by auto
    have "adjacent g c (fst nb)" using 2(1) by (auto simp: adjacent_iff)
    moreover have "fst nb \<notin> set p" using 2(2) setp by auto
    ultimately have "simple_route g start (fst nb) (p @ [fst nb])"
      using cp(1) by (intro simple_route_snoc)
    then show ?thesis using 2(3) mk [of nb] setp by simp
  qed
qed

lemma frontier_ok_goal:
  assumes "frontier_ok g start F V" and "F \<noteq> []" and "hd (sort_key key F) = e"
  shows "simple_route g start (fst e) (fst (snd e))"
  using assms hd_sort_key_in [of F key] unfolding frontier_ok_def by blast

lemma ucs_sound:
  "frontier_ok g start frontier visited \<Longrightarrow>
   sound_result g start (\<lambda>n. isGoalNode n goal)
     (uniformCostSearch_loop g running goal frontier visited st)"
proof (rule ucs_loop_rule [where I = "\<lambda>F V s. frontier_ok g start F V"], goal_cases)
  case (2 F V s c p k)
  then show ?case by (intro frontier_ok_stale [OF 2(2)] set_tl_sort_key)
next
  case (3 F V s c p k F2 s2)
  have F2: "F2 = tl (sort_key (\<lambda>(n, p, c). c) F) @
                 map (\<lambda>nb. (fst nb, p @ [fst nb], k + snd nb))
                   (filter (\<lambda>nb. fst nb \<notin> insert c V) (getNeighbors g c))"
    using ucs_push_frontier [of p k "insert c V" "getNeighbors g c"
            "tl (sort_key (\<lambda>(n, p, c). c) F)" "explore c (read_flag s)"] 3(8) by simp
  have "(c, p, k) \<in> set F" using hd_sort_key_in [OF 3(3)] 3(5) by metis
  then show ?case
    by (intro frontier_ok_expand [where e = "(c, p, k)", OF 3(2) _ _ _ set_tl_sort_key F2])
       simp_all
next
  case (6 F V s c p k)
  show ?case using frontier_ok_goal [OF 6(2,3,5)] 6(7)
    by (intro sound_found [of g start c]) simp_all
qed (simp_all add: sound_no_path)

lemma greedy_sound:
  "frontier_ok g start frontier visited \<Longrightarrow>
   sound_result g start (\<lambda>n. isGoalNode n goal)
     (greedyBestFirstSearch_loop g running goal frontier visited st)"
proof (rule greedy_loop_rule [where I = "\<lambda>F V s. frontier_ok g start F V"], goal_cases)
  case (2 F V s c p h)
  then show ?case by (intro frontier_ok_stale [OF 2(2)] set_tl_sort_key)
next
  case (3 F V s c p h F2 s2)
  have F2: "F2 = tl (sort_key (\<lambda>(n, p, h). h) F) @
                 map (\<lambda>nb. (fst nb, p @ [fst nb], heuristicToGoalOrGoals g (fst nb) goal))
                   (filter (\<lambda>nb. fst nb \<notin> insert c V) (getNeighbors g c))"
    using greedy_push_frontier [of g goal p "insert c V" "getNeighbors g c"
            "tl (sort_key (\<lambda>(n, p, h). h) F)" "explore c (read_flag s)"] 3(8) by simp
  have "(c, p, h) \<in> set F" using hd_sort_key_in [OF 3(3)] 3(5) by metis
  then show ?case
    by (intro frontier_ok_expand [where e = "(c, p, h)", OF 3(2) _ _ _ set_tl_sort_key F2])
       simp_all
next
  case (6 F V s c p h)
  show ?case using frontier_ok_goal [OF 6(2,3,5)] 6(7)
    by (intro sound_found [of g start c]) simp_all
qed (simp_all add: sound_no_path)

lemma astar_sound:
  "frontier_ok g start frontier visited \<Longrightarrow>
   sound_result g start (\<lambda>n. isGoalNode n goal)
     (aStarSearch_loop g running goal frontier visited st)"
proof (rule astar_loop_rule [where I = "\<lambda>F V s. frontier_ok g start F V"], goal_cases)
  case (2 F V s c p k h f)
  then show ?case by (intro frontier_ok_stale [OF 2(2)] set_tl_sort_key)
next
  case (3 F V s c p k h f F2 s2)
  have F2: "F2 = tl (sort_key (\<lambda>(n, p, c, h, f). f) F) @
                 map (\<lambda>nb. (fst nb, p @ [fst nb], k + snd nb,
                         heuristicToGoalOrGoals g (fst nb) goal,
                         add_num (k + snd nb) (heuristicToGoalOrGoals g (fst nb) goal)))
                   (filter (\<lambda>nb. fst nb \<notin> insert c V) (getNeighbors g c))"
    using astar_push_frontier [of g goal p k "insert c V" "getNeighbors g c"
            "tl (sort_key (\<lambda>(n, p, c, h, f). f) F)" "explore c (read_flag s)"] 3(8) by simp
  have "(c, p, k, h, f) \<in> set F" using hd_sort_key_in [OF 3(3)] 3(5) by metis
  then show ?case
    by (intro frontier_ok_expand [where e = "(c, p, k, h, f)", OF 3(2) _ _ _ set_tl_sort_key F2])
       simp_all
next
  case (6 F V s c p k h f)
  show ?case using frontier_ok_goal [OF 6(2,3,5)] 6(7)
    by (intro sound_found [of g start c]) simp_all
qed (simp_all add: sound_no_path)

lemma frontier_ok_start: "frontier_ok g start [(start, [start], x)] {}"
  by (simp add: frontier_ok_def simple_route_start)
text \<open>Depth-limited search: the path argument of every call is a simple route.\<close>

lemma dls_sound:
  "simple_route g start c p \<Longrightarrow> d_success (fst (dls g running goal L c p d st)) \<Longrightarrow>
   (\<exists>p'. d_path (fst (dls g running goal L c p d st)) = Some p' \<and>
         isGoalNode (last p') goal \<and> simple_route g start (last p') p')"
  and dls_for_sound:
  "simple_route g start (last p) p \<Longrightarrow> set nbrs \<subseteq> set (getNeighbors g (last p)) \<Longrightarrow>
   fst (dls_for g running goal L p d nbrs st) = Some r \<Longrightarrow>
   d_success r \<and>
   (\<exists>p'. d_path r = Some p' \<and> isGoalNode (last p') goal \<and> simple_route g start (last p') p')"
proof (induction g running goal L c p d st and g running goal L p d nbrs st
       arbitrary: and r rule: dls_dls_for.induct)
  case (1 g running goal depthLimit currentNode path depth st)
  define st1 where "st1 = explore currentNode (read_flag st)"
  have lastp: "last path = currentNode" using "1.prems"(1) by (simp add: simple_route_def)
  show ?case
  proof (cases "running (reads st)")
    case False
    then have eq: "dls g running goal depthLimit currentNode path depth st =
                   (dls_stopped, read_flag st)"
      by (subst dls.simps) simp
    show ?thesis using "1.prems"(2) unfolding eq by (simp add: dls_stopped_def)
  next
    case run: True
    show ?thesis
    proof (cases "isGoalNode currentNode goal")
      case True
      then have eq: "dls g running goal depthLimit currentNode path depth st =
                     (dls_found g path st1, emit (PathShown path) st1)"
        using run by (subst dls.simps) (simp add: Let_def st1_def)
      show ?thesis using "1.prems"(1) True lastp unfolding eq by (simp add: dls_found_def)
    next
      case ng: False
      show ?thesis
      proof (cases "depthLimit \<le> int depth")
        case True
        then have eq: "dls g running goal depthLimit currentNode path depth st =
                       (dls_failed ''Depth limit reached'' st1, emit (Explored currentNode) st1)"
          using run ng by (subst dls.simps) (simp add: Let_def st1_def)
        show ?thesis using "1.prems"(2) unfolding eq by (simp add: dls_failed_def)
      next
        case False
        obtain ro st2 where loop:
          "dls_for g running goal depthLimit path depth (getNeighbors g currentNode) st1 =
           (ro, st2)"
          by (cases "dls_for g running goal depthLimit path depth
                       (getNeighbors g currentNode) st1") auto
        have eq: "dls g running goal depthLimit currentNode path depth st =
                  (case ro of
                     Some result \<Rightarrow> (result, st2)
                   | None \<Rightarrow> (dls_failed ''No path found within depth limit'' st2,
                              emit (Explored currentNode) st2))"
          using run ng False loop
          by (subst dls.simps) (simp add: Let_def st1_def [symmetric])
        show ?thesis
        proof (cases ro)
          case None
          then show ?thesis using "1.prems"(2) unfolding eq by (simp add: dls_failed_def)
        next
          case (Some res)
          have "fst (dls_for g running goal depthLimit path depth
                       (getNeighbors g currentNode) st1) = Some res"
            using loop Some by simp
          from "1.IH" [OF _ st1_def ng False _ _ this] run "1.prems"(1) lastp
          show ?thesis unfolding eq Some by simp
        qed
      qed
    qed
  qed
next
  case (2 g running goal depthLimit path depth st)
  then show ?case by simp
next
  case (3 g running goal depthLimit path depth nb rest st)
  define st1 where "st1 = st\<lparr>edges := edges st + 1\<rparr>"
  have rest_sub: "set rest \<subseteq> set (getNeighbors g (last path))" using "3.prems"(2) by simp
  show ?case
  proof (cases "fst nb \<in> set path")
    case True
    then have "fst (dls_for g running goal depthLimit path depth rest st1) = Some r"
      using "3.prems"(3) by (simp add: Let_def st1_def)
    from "3.IH"(3) [OF st1_def _ "3.prems"(1) rest_sub this] True show ?thesis by simp
  next
    case False
    obtain res st2 where call:
      "dls g running goal depthLimit (fst nb) (path @ [fst nb]) (depth + 1) st1 = (res, st2)"
      by (cases "dls g running goal depthLimit (fst nb) (path @ [fst nb]) (depth + 1) st1") auto
    have eq: "dls_for g running goal depthLimit path depth (nb # rest) st =
              (if d_success res then (Some res, st2)
               else dls_for g running goal depthLimit path depth rest
                      (st2\<lparr>discovered := discovered st2 + 1\<rparr>))"
      using False call [unfolded st1_def] by (simp add: Let_def)
    have "adjacent g (last path) (fst nb)"
      using "3.prems"(2) by (auto simp: adjacent_iff)
    then have sr: "simple_route g start (fst nb) (path @ [fst nb])"
      using "3.prems"(1) False by (intro simple_route_snoc)
    show ?thesis
    proof (cases "d_success res")
      case True
      then have "r = res" using "3.prems"(3) unfolding eq by simp
      moreover have "d_success (fst (dls g running goal depthLimit (fst nb) (path @ [fst nb])
                                       (depth + 1) st1))"
        using call True by simp
      from "3.IH"(1) [OF st1_def False sr this] call
      have "\<exists>p'. d_path res = Some p' \<and> isGoalNode (last p') goal \<and>
                 simple_route g start (last p') p'" by simp
      ultimately show ?thesis using True by simp
    next
      case ns: False
      then have "fst (dls_for g running goal depthLimit path depth rest
                        (st2\<lparr>discovered := discovered st2 + 1\<rparr>)) = Some r"
        using "3.prems"(3) unfolding eq by simp
      from "3.IH"(2) [OF st1_def False call [symmetric] ns "3.prems"(1) rest_sub] this False
      show ?thesis by simp
    qed
  qed
qed

lemma dls_from_sound:
  assumes "depthLimitedSearch_from g running start goal L k evs = (result, st)"
  shows "sound_result g start (\<lambda>n. isGoalNode n goal) (result, es)"
proof -
  define st0 where "st0 = \<lparr>reads = k, explored = 0, discovered = 1, edges = 0, events = evs\<rparr>"
  obtain r st' where call: "dls g running goal L start [start] 0 st0 = (r, st')"
    by (cases "dls g running goal L start [start] 0 st0") auto
  have res: "success result = d_success r" "rpath result = d_path r"
    using assms call unfolding depthLimitedSearch_from_def st0_def [symmetric] by auto
  show ?thesis
    using dls_sound [where g = g and start = start and c = start and p = "[start]"
                       and running = running and goal = goal and L = L and d = 0
                       and st = st0, OF simple_route_start] call res
    by (auto simp: sound_result_def)
qed

lemma dls_search_sound:
  "sound_result g start (\<lambda>n. isGoalNode n goal) (depthLimitedSearch g running start goal L)"
proof -
  obtain result st where call: "depthLimitedSearch_from g running start goal L 0 [] = (result, st)"
    by (cases "depthLimitedSearch_from g running start goal L 0 []") auto
  show ?thesis using dls_from_sound [OF call, of "events st"] call
    by (simp add: depthLimitedSearch_def)
qed

lemma iddfs_sound:
  "sound_result g start (\<lambda>n. isGoalNode n goal)
     (iterativeDeepeningSearch_loop g running start goal depth tE tP tD k evs)"
proof (induction g running start goal depth tE tP tD k evs
       rule: iterativeDeepeningSearch_loop.induct)
  case (1 g running start goal depth tE tP tD k evs)
  show ?case
  proof (cases "depth \<le> maxDepth \<and> running k")
    case False
    then show ?thesis
      by (subst iterativeDeepeningSearch_loop.simps) (auto simp: sound_result_def Let_def)
  next
    case True
    obtain result st where call:
      "depthLimitedSearch_from g running start goal (int depth) (k + 1) evs = (result, st)"
      by (cases "depthLimitedSearch_from g running start goal (int depth) (k + 1) evs") auto
    show ?thesis
    proof (cases "success result")
      case True
      then show ?thesis using \<open>depth \<le> maxDepth \<and> running k\<close> call
          dls_from_sound [OF call, of "events st"]
        by (subst iterativeDeepeningSearch_loop.simps) (simp add: sound_result_def Let_def)
    next
      case False
      have "sound_result g start (\<lambda>n. isGoalNode n goal)
              (iterativeDeepeningSearch_loop g running start goal (depth + 1)
              (tE + nodesExplored result) (tP + edgesProcessed result)
              (tD + nodesDiscovered result) (reads st) (events st))"
        using "1.IH" [OF refl _ _ call [symmetric] refl refl refl False] True by simp
      then show ?thesis using True call False
        by (subst iterativeDeepeningSearch_loop.simps) (simp add: Let_def)
    qed
  qed
qed
text \<open>Bidirectional search.\<close>

lemma bidi_push_effect:
  "bidi_push p nbrs (q, v, s) = (q2, v2, s2) \<Longrightarrow>
   \<exists>new. q2 = q @ map (\<lambda>x. (x, p @ [x])) new \<and> distinct new \<and>
         set new = fst ` set nbrs - dom v \<and>
         v2 = (\<lambda>y. if y \<in> set new then Some (p @ [y]) else v y)"
proof (induction nbrs arbitrary: q v s)
  case Nil
  then show ?case by (intro exI [of _ "[]"]) simp
next
  case (Cons nb rest)
  show ?case
  proof (cases "v (fst nb) = None")
    case False
    then have "bidi_push p rest (q, v, s\<lparr>edges := edges s + 1\<rparr>) = (q2, v2, s2)"
      using Cons.prems by (simp add: Let_def del: not_None_eq)
    from Cons.IH [OF this] obtain new where new:
      "q2 = q @ map (\<lambda>x. (x, p @ [x])) new" "distinct new"
      "set new = fst ` set rest - dom v"
      "v2 = (\<lambda>y. if y \<in> set new then Some (p @ [y]) else v y)"
      by blast
    have "set new = fst ` set (nb # rest) - dom v" using new(3) False by auto
    then show ?thesis using new by blast
  next
    case True
    define v1 where "v1 = v(fst nb \<mapsto> p @ [fst nb])"
    have "bidi_push p rest (q @ [(fst nb, p @ [fst nb])], v1,
            s\<lparr>edges := edges s + 1, discovered := discovered s + 1\<rparr>) = (q2, v2, s2)"
      using Cons.prems True by (simp add: Let_def v1_def)
    from Cons.IH [OF this] obtain new where new:
      "q2 = (q @ [(fst nb, p @ [fst nb])]) @ map (\<lambda>x. (x, p @ [x])) new" "distinct new"
      "set new = fst ` set rest - dom v1"
      "v2 = (\<lambda>y. if y \<in> set new then Some (p @ [y]) else v1 y)"
      by blast
    have dom1: "dom v1 = insert (fst nb) (dom v)" by (simp add: v1_def)
    have 1: "q2 = q @ map (\<lambda>x. (x, p @ [x])) (fst nb # new)" using new(1) by simp
    have 2: "distinct (fst nb # new)" using new(2,3) dom1 by auto
    have 3: "set (fst nb # new) = fst ` set (nb # rest) - dom v"
      using new(3) dom1 True by auto
    have 4: "v2 = (\<lambda>y. if y \<in> set (fst nb # new) then Some (p @ [y]) else v y)"
      unfolding new(4) v1_def by auto
    show ?thesis using 1 2 3 4 by blast
  qed
qed

lemma in_set_tl: "x \<in> set (tl xs) \<Longrightarrow> x \<in> set xs"
  by (cases xs) auto

lemma set_butlast_last: "p \<noteq> [] \<Longrightarrow> set p = insert (last p) (set (butlast p))"
  by (induction p) auto

lemma half_ok_expand:
  assumes ok: "half_ok g s q v" and ne: "q \<noteq> []" and hd: "hd q = (c, p)"
    and push: "bidi_push p (getNeighbors g c) (tl q, v, st) = (q2, v2, st2)"
  shows "half_ok g s q2 v2"
    and "\<And>y. v2 y \<noteq> None \<Longrightarrow> v y \<noteq> None \<or> y \<in> fst ` set q2"
    and "fst ` set (tl q) \<subseteq> fst ` set q2"
proof -
  from bidi_push_effect [OF push] obtain new where new:
    "q2 = tl q @ map (\<lambda>x. (x, p @ [x])) new" "distinct new"
    "set new = fst ` set (getNeighbors g c) - dom v"
    "v2 = (\<lambda>y. if y \<in> set new then Some (p @ [y]) else v y)"
    by blast
  have q: "q = (c, p) # tl q" using ne hd by (cases q) auto
  have qv: "\<And>n p'. (n, p') \<in> set q \<Longrightarrow> v n = Some p'"
    using ok unfolding half_ok_def by blast
  have dq: "distinct (map fst q)" using ok unfolding half_ok_def by blast
  have vr: "\<And>n p'. v n = Some p' \<Longrightarrow> simple_route g s n p'"
    and vb: "\<And>n p' y. v n = Some p' \<Longrightarrow> y \<in> set (butlast p') \<Longrightarrow>
                v y \<noteq> None \<and> y \<notin> fst ` set q"
    using ok unfolding half_ok_def by blast+
  have "(c, p) \<in> set q" by (subst q) simp
  then have vc: "v c = Some p" by (rule qv)
  have "distinct (map fst ((c, p) # tl q))" using dq q by simp
  then have c_not_tl: "c \<notin> fst ` set (tl q)" by simp
  have tl_dom: "fst ` set (tl q) \<subseteq> dom v"
  proof
    fix n assume "n \<in> fst ` set (tl q)"
    then obtain p' where "(n, p') \<in> set (tl q)" by auto
    then have "(n, p') \<in> set q" by (rule in_set_tl)
    then show "n \<in> dom v" using qv by auto
  qed
  have new_fresh: "set new \<inter> dom v = {}" using new(3) by auto
  have sr: "simple_route g s c p" using vr [OF vc] .
  then have pne: "p \<noteq> []" and lastp: "last p = c" by (simp_all add: simple_route_def)
  have setp: "set p \<subseteq> dom v"
  proof
    fix y assume "y \<in> set p"
    then have "y \<in> set (butlast p) \<or> y = last p"
      using set_butlast_last [OF pne] by auto
    then show "y \<in> dom v" using vb [OF vc] vc lastp by auto
  qed
  have nodes_q2: "fst ` set q2 = fst ` set (tl q) \<union> set new"
    unfolding new(1) by force
  show "fst ` set (tl q) \<subseteq> fst ` set q2" using nodes_q2 by simp
  show "\<And>y. v2 y \<noteq> None \<Longrightarrow> v y \<noteq> None \<or> y \<in> fst ` set q2"
    unfolding new(4) nodes_q2 by (auto split: if_splits)
  show "half_ok g s q2 v2"
    unfolding half_ok_def
  proof (intro conjI allI impI ballI)
    fix e assume e: "e \<in> set q2"
    show "case e of (n, p') \<Rightarrow> v2 n = Some p'"
    proof (cases "e \<in> set (tl q)")
      case True
      obtain n p' where np: "e = (n, p')" by (cases e) auto
      then have "(n, p') \<in> set q" using True by (auto intro: in_set_tl)
      then have "v n = Some p'" by (rule qv)
      moreover have "n \<notin> set new" using \<open>v n = Some p'\<close> new_fresh by auto
      ultimately show ?thesis unfolding np new(4) by simp
    next
      case False
      then obtain x where "x \<in> set new" "e = (x, p @ [x])" using e unfolding new(1) by auto
      then show ?thesis unfolding new(4) by simp
    qed
  next
    have "distinct (map fst (tl q))" using dq by (simp add: distinct_tl map_tl)
    moreover have "map fst (map (\<lambda>x. (x, p @ [x])) new) = new" by (simp add: comp_def)
    moreover have "set (map fst (tl q)) \<inter> set new = {}" using tl_dom new_fresh by auto
    ultimately show "distinct (map fst q2)" unfolding new(1) using new(2) by simp
  next
    fix n p' assume v2: "v2 n = Some p'"
    show "simple_route g s n p'"
    proof (cases "n \<in> set new")
      case True
      then have p': "p' = p @ [n]" using v2 unfolding new(4) by simp
      have "adjacent g c n" using True new(3) by (auto simp: adjacent_iff)
      moreover have "n \<notin> set p" using True new_fresh setp by auto
      ultimately show ?thesis unfolding p' using sr by (intro simple_route_snoc)
    next
      case False
      then show ?thesis using v2 vr unfolding new(4) by simp
    qed
  next
    fix n p' y assume v2: "v2 n = Some p'" and y: "y \<in> set (butlast p')"
    have "v y \<noteq> None \<and> y \<notin> fst ` set (tl q)"
    proof (cases "n \<in> set new")
      case True
      then have "p' = p @ [n]" using v2 unfolding new(4) by simp
      then have "y \<in> set p" using y by simp
      then have "y \<in> set (butlast p) \<or> y = c"
        using set_butlast_last [OF pne] lastp by auto
      then show ?thesis
      proof
        assume "y \<in> set (butlast p)"
        from vb [OF vc this] show ?thesis by (auto dest: in_set_tl)
      next
        assume "y = c"
        then show ?thesis using vc c_not_tl by simp
      qed
    next
      case False
      then have "v n = Some p'" using v2 unfolding new(4) by simp
      from vb [OF this y] show ?thesis by (auto dest: in_set_tl)
    qed
    then show "v2 y \<noteq> None" unfolding new(4) by simp
    show "y \<notin> fst ` set q2"
      using \<open>v y \<noteq> None \<and> y \<notin> fst ` set (tl q)\<close> new_fresh unfolding nodes_q2 by auto
  qed
qed
lemma route_butlast: "route g p \<Longrightarrow> route g (butlast p)"
proof (cases "p = []")
  case False
  assume "route g p"
  then have "route g (butlast p @ [last p])" using False by simp
  then show ?thesis unfolding route_snoc by simp
qed simp

lemma meet_route:
  assumes f: "simple_route g start c fp" and b: "simple_route g gl c bp"
    and disj: "set fp \<inter> set (butlast bp) = {}"
  shows "simple_route g start gl (fp @ rev (butlast bp))"
proof -
  have fp: "fp \<noteq> []" "hd fp = start" "last fp = c" "route g fp" "distinct fp"
    using f by (simp_all add: simple_route_def)
  have bp: "bp \<noteq> []" "hd bp = gl" "last bp = c" "route g bp" "distinct bp"
    using b by (simp_all add: simple_route_def)
  have last: "last (fp @ rev (butlast bp)) = gl"
  proof (cases "butlast bp = []")
    case True
    then have "bp = [last bp]" using bp(1) by (metis append_butlast_last_id append_Nil)
    then have "hd bp = last bp" by (metis list.sel(1))
    then show ?thesis using True fp(3) bp(2,3) by simp
  next
    case False
    then have "last (rev (butlast bp)) = hd (butlast bp)" by (simp add: last_rev)
    also have "\<dots> = hd bp" using False by (cases bp) auto
    finally show ?thesis using False bp(2) by simp
  qed
  have route: "route g (fp @ rev (butlast bp))"
  proof (cases "butlast bp = []")
    case True
    then show ?thesis using fp(4) by simp
  next
    case False
    have "route g (butlast bp @ [last bp])" using bp(1,4) by simp
    then have "adjacent g (last (butlast bp)) c" using False bp(3) unfolding route_snoc by simp
    then have "adjacent g c (last (butlast bp))" using adjacent_sym by blast
    moreover have "hd (rev (butlast bp)) = last (butlast bp)" using False by (simp add: hd_rev)
    moreover have "route g (rev (butlast bp))" using route_butlast [OF bp(4)] by (simp add: route_rev)
    ultimately show ?thesis using fp(3,4) unfolding route_append by simp
  qed
  have "distinct (butlast bp)" using bp(5) by (rule distinct_butlast)
  then have "distinct (fp @ rev (butlast bp))" using fp(5) disj by simp
  then show ?thesis using fp(1,2) last route by (simp add: simple_route_def)
qed

lemma bidi_meet:
  assumes ok: "bidi_ok g start gl fq bq fv bv" and f: "fv c = Some fp" and b: "bv c = Some bp"
  shows "simple_route g start gl (fp @ rev (butlast bp))"
proof (rule meet_route)
  have hf: "half_ok g start fq fv" and hb: "half_ok g gl bq bv"
    and cross: "\<And>y. fv y \<noteq> None \<Longrightarrow> bv y \<noteq> None \<Longrightarrow> y \<in> fst ` set fq \<or> y \<in> fst ` set bq"
    using ok unfolding bidi_ok_def by blast+
  show fr: "simple_route g start c fp" using hf f unfolding half_ok_def by blast
  show br: "simple_route g gl c bp" using hb b unfolding half_ok_def by blast
  show "set fp \<inter> set (butlast bp) = {}"
  proof (rule ccontr)
    assume "set fp \<inter> set (butlast bp) \<noteq> {}"
    then obtain y where y: "y \<in> set fp" "y \<in> set (butlast bp)" by auto
    have yb: "bv y \<noteq> None" "y \<notin> fst ` set bq"
      using hb b y(2) unfolding half_ok_def by blast+
    have "fp \<noteq> []" "last fp = c" using fr by (simp_all add: simple_route_def)
    then have "y \<in> set (butlast fp) \<or> y = c" using y(1) set_butlast_last [of fp] by auto
    then show False
    proof
      assume "y \<in> set (butlast fp)"
      then have "fv y \<noteq> None" "y \<notin> fst ` set fq"
        using hf f unfolding half_ok_def by blast+
      then show False using cross [of y] yb by blast
    next
      assume "y = c"
      have "bp \<noteq> []" "last bp = c" "distinct bp" using br by (simp_all add: simple_route_def)
      then have "distinct (butlast bp @ [c])" by (metis append_butlast_last_id)
      then show False using y(2) \<open>y = c\<close> by simp
    qed
  qed
qed

lemma bidi_ok_sym: "bidi_ok g start gl fq bq fv bv \<longleftrightarrow> bidi_ok g gl start bq fq bv fv"
  unfolding bidi_ok_def by blast

lemma expand_back_Inr:
  "expand_back g bq bv fv s = Inr x \<longleftrightarrow> expand_front g bq bv fv s = Inr x"
  unfolding expand_back_def expand_front_def
  by (auto simp: Let_def split: prod.splits option.splits)

lemma expand_front_ok:
  assumes ok: "bidi_ok g start gl fq bq fv bv"
    and step: "expand_front g fq fv bv s = Inr (fq2, fv2, s2)"
  shows "bidi_ok g start gl fq2 bq fv2 bv"
proof (cases "fq = []")
  case True
  then show ?thesis using ok step by (simp add: expand_front_def)
next
  case False
  obtain c p where hd: "hd fq = (c, p)" by (cases "hd fq") auto
  have bvc: "bv c = None"
    using step False hd by (auto simp: expand_front_def Let_def split: option.splits)
  obtain s' where push: "bidi_push p (getNeighbors g c) (tl fq, fv, explore c s) = (fq2, fv2, s')"
    using step False hd bvc
    by (auto simp: expand_front_def Let_def split: prod.splits)
  have hf: "half_ok g start fq fv" and hb: "half_ok g gl bq bv"
    and cross: "\<And>y. fv y \<noteq> None \<Longrightarrow> bv y \<noteq> None \<Longrightarrow> y \<in> fst ` set fq \<or> y \<in> fst ` set bq"
    using ok unfolding bidi_ok_def by blast+
  note ex = half_ok_expand [OF hf False hd push]
  have nodes: "fst ` set fq = insert c (fst ` set (tl fq))"
    using False hd by (cases fq) auto
  have "\<And>y. fv2 y \<noteq> None \<Longrightarrow> bv y \<noteq> None \<Longrightarrow> y \<in> fst ` set fq2 \<or> y \<in> fst ` set bq"
  proof -
    fix y assume y: "fv2 y \<noteq> None" "bv y \<noteq> None"
    from ex(2) [OF y(1)] show "y \<in> fst ` set fq2 \<or> y \<in> fst ` set bq"
    proof
      assume "fv y \<noteq> None"
      from cross [OF this y(2)] show ?thesis
      proof
        assume "y \<in> fst ` set fq"
        then have "y \<in> fst ` set (tl fq)" using nodes y(2) bvc by auto
        then show ?thesis using ex(3) by auto
      qed simp
    qed simp
  qed
  then show ?thesis using ex(1) hb unfolding bidi_ok_def by blast
qed

lemma expand_back_ok:
  assumes ok: "bidi_ok g start gl fq bq fv bv"
    and step: "expand_back g bq bv fv s = Inr (bq2, bv2, s2)"
  shows "bidi_ok g start gl fq bq2 fv bv2"
  using expand_front_ok [OF ok [unfolded bidi_ok_sym [of g start gl]]
          step [unfolded expand_back_Inr]]
  by (simp add: bidi_ok_sym [of g start gl])

lemma half_ok_queue: "half_ok g s q v \<Longrightarrow> (n, p) \<in> set q \<Longrightarrow> v n = Some p"
  by (auto simp: half_ok_def)

lemma expand_front_met:
  assumes ok: "bidi_ok g start gl fq bq fv bv"
    and step: "expand_front g fq fv bv s = Inl r"
  shows "sound_result g start (\<lambda>n. n = gl) r"
proof -
  have ne: "fq \<noteq> []" using step by (auto simp: expand_front_def)
  obtain c p where hd: "hd fq = (c, p)" by (cases "hd fq") auto
  obtain bp where bvc: "bv c = Some bp" and r: "r = met g (explore c s) (p @ rev (butlast bp))"
    using step ne hd by (auto simp: expand_front_def Let_def split: option.splits prod.splits)
  have "(c, p) \<in> set fq" using ne hd by (metis hd_in_set)
  moreover have "half_ok g start fq fv" using ok by (simp add: bidi_ok_def)
  ultimately have "fv c = Some p" by (intro half_ok_queue)
  from bidi_meet [OF ok this bvc] have "simple_route g start gl (p @ rev (butlast bp))" .
  then show ?thesis unfolding r met_def by (intro sound_found [of g start gl]) simp_all
qed

lemma expand_back_met:
  assumes ok: "bidi_ok g start gl fq bq fv bv"
    and step: "expand_back g bq bv fv s = Inl r"
  shows "sound_result g start (\<lambda>n. n = gl) r"
proof -
  have ne: "bq \<noteq> []" using step by (auto simp: expand_back_def)
  obtain c p where hd: "hd bq = (c, p)" by (cases "hd bq") auto
  obtain fp where fvc: "fv c = Some fp" and r: "r = met g (explore c s) (fp @ rev (butlast p))"
    using step ne hd by (auto simp: expand_back_def Let_def split: option.splits prod.splits)
  have "(c, p) \<in> set bq" using ne hd by (metis hd_in_set)
  moreover have "half_ok g gl bq bv" using ok by (simp add: bidi_ok_def)
  ultimately have "bv c = Some p" by (intro half_ok_queue)
  from bidi_meet [OF ok fvc this] have "simple_route g start gl (fp @ rev (butlast p))" .
  then show ?thesis unfolding r met_def by (intro sound_found [of g start gl]) simp_all
qed

lemma bidi_sound:
  "bidi_ok g start gl fq bq fv bv \<Longrightarrow>
   sound_result g start (\<lambda>n. n = gl) (bidirectionalSearch_loop g running fq bq fv bv st)"
proof (rule bidi_loop_rule [where I = "\<lambda>fq bq fv bv s. bidi_ok g start gl fq bq fv bv"],
       goal_cases)
  case (2 fq bq fv bv s fq2 fv2 s2 bq2 bv2 s3)
  show ?case by (rule expand_back_ok [OF expand_front_ok [OF 2(2,6)] 2(7)])
next
  case (5 fq bq fv bv s r)
  show ?case by (rule expand_front_met [OF 5(2,6)])
next
  case (6 fq bq fv bv s fq2 fv2 s2 r)
  show ?case by (rule expand_back_met [OF expand_front_ok [OF 6(2,6)] 6(7)])
qed (simp_all add: sound_no_path)

lemma bidi_ok_start:
  "bidi_ok g start gl [(start, [start])] [(gl, [gl])] [start \<mapsto> [start]] [gl \<mapsto> [gl]]"
  by (auto simp: bidi_ok_def half_ok_def simple_route_start)

lemma strategies_sound:
  "sound_result g start (\<lambda>n. isGoalNode n goal) (breadthFirstSearch g running start goal)"
  "sound_result g start (\<lambda>n. isGoalNode n goal) (depthFirstSearch g running start goal)"
  "sound_result g start (\<lambda>n. isGoalNode n goal) (uniformCostSearch g running start goal)"
  "sound_result g start (\<lambda>n. isGoalNode n goal)
     (depthLimitedSearch g running start goal depthLimit)"
  "sound_result g start (\<lambda>n. isGoalNode n goal) (iterativeDeepeningSearch g running start goal)"
  "sound_result g start (\<lambda>n. n = gl) (bidirectionalSearch g running start gl)"
  "sound_result g start (\<lambda>n. isGoalNode n goal) (greedyBestFirstSearch g running start goal)"
  "sound_result g start (\<lambda>n. isGoalNode n goal) (aStarSearch g running start goal)"
proof -
  show "sound_result g start (\<lambda>n. isGoalNode n goal) (breadthFirstSearch g running start goal)"
    unfolding breadthFirstSearch_def by (rule bfs_sound [OF queue_ok_start])
  show "sound_result g start (\<lambda>n. isGoalNode n goal) (depthFirstSearch g running start goal)"
    unfolding depthFirstSearch_def by (rule dfs_sound [OF queue_ok_start])
  show "sound_result g start (\<lambda>n. isGoalNode n goal) (uniformCostSearch g running start goal)"
    unfolding uniformCostSearch_def by (rule ucs_sound [OF frontier_ok_start])
  show "sound_result g start (\<lambda>n. isGoalNode n goal)
          (depthLimitedSearch g running start goal depthLimit)"
    by (rule dls_search_sound)
  show "sound_result g start (\<lambda>n. isGoalNode n goal)
          (iterativeDeepeningSearch g running start goal)"
    unfolding iterativeDeepeningSearch_def by (rule iddfs_sound)
  show "sound_result g start (\<lambda>n. n = gl) (bidirectionalSearch g running start gl)"
    unfolding bidirectionalSearch_def by (rule bidi_sound [OF bidi_ok_start])
  show "sound_result g start (\<lambda>n. isGoalNode n goal)
          (greedyBestFirstSearch g running start goal)"
    unfolding greedyBestFirstSearch_def by (rule greedy_sound [OF frontier_ok_start])
  show "sound_result g start (\<lambda>n. isGoalNode n goal) (aStarSearch g running start goal)"
    unfolding aStarSearch_def by (rule astar_sound [OF frontier_ok_start])
qed

lemma sound_leads_to_goal:
  "sound_result g start (\<lambda>n. isGoalNode n goal) r \<Longrightarrow> leads_to_goal g start goal r"
  by (auto simp: sound_result_def leads_to_goal_def simple_route_def)

lemma sound_cycle_free: "sound_result g start G r \<Longrightarrow> cycle_free r"
  by (auto simp: sound_result_def cycle_free_def simple_route_def)

lemma bidirectional_sound_single:
  "sound_result g start (\<lambda>n. isGoalNode n (Single gl)) (bidirectionalSearch g running start gl)"
  using strategies_sound(6) [of g start gl running] by (simp add: isGoalNode_def)

text \<open>C2. Whenever a strategy returns a successful outcome, the returned path is not
  empty, begins with the start city, ends with a city that passes the goal test (for
  the bidirectional strategy: the goal), and every two consecutive identifiers in it are
  joined by a link of the graph. For the bidirectional strategy this is the path put
  together from the forward path and the reversed backward path. It holds for every
  graph and every behaviour of the cancellation flag.\<close>

theorem returned_path_leads_from_start_to_goal:
  "leads_to_goal g start goal (breadthFirstSearch g running start goal) \<and>
   leads_to_goal g start goal (depthFirstSearch g running start goal) \<and>
   leads_to_goal g start goal (uniformCostSearch g running start goal) \<and>
   leads_to_goal g start goal (depthLimitedSearch g running start goal depthLimit) \<and>
   leads_to_goal g start goal (iterativeDeepeningSearch g running start goal) \<and>
   leads_to_goal g start (Single gl) (bidirectionalSearch g running start gl) \<and>
   leads_to_goal g start goal (greedyBestFirstSearch g running start goal) \<and>
   leads_to_goal g start goal (aStarSearch g running start goal)"
  by (intro conjI sound_leads_to_goal strategies_sound bidirectional_sound_single)

theorem returned_path_leads_from_start_to_goal_witness:
  "success (fst (bidirectionalSearch fixture (\<lambda>k. True) ''A'' ''C'')) \<and>
   (\<exists>p. rpath (fst (bidirectionalSearch fixture (\<lambda>k. True) ''A'' ''C'')) = Some p \<and>
        p \<noteq> [] \<and> hd p = ''A'' \<and> last p = ''C'' \<and> route fixture p) \<and>
   success (fst (breadthFirstSearch fixture (\<lambda>k. True) ''A'' (GoalSet [''D'', ''B'']))) \<and>
   (\<exists>p. rpath (fst (breadthFirstSearch fixture (\<lambda>k. True) ''A'' (GoalSet [''D'', ''B''])))
          = Some p \<and>
        p \<noteq> [] \<and> hd p = ''A'' \<and> last p \<in> {''D'', ''B''} \<and> route fixture p)"
proof -
  have 1: "success (fst (bidirectionalSearch fixture (\<lambda>k. True) ''A'' ''C''))"
    by code_simp
  have 2: "success (fst (breadthFirstSearch fixture (\<lambda>k. True) ''A'' (GoalSet [''D'', ''B''])))"
    by code_simp
  show ?thesis
    using 1 2
      returned_path_leads_from_start_to_goal
        [of fixture "''A''" "GoalSet [''D'', ''B'']" "\<lambda>k. True" 0 "''C''"]
    by (simp add: leads_to_goal_def isGoalNode_def)
qed

text \<open>C3. Whenever a strategy returns a successful outcome, no identifier occurs twice
  in the returned path. For the bidirectional strategy this is the full path built from
  the two maps of visited nodes at the moment the two searches meet.\<close>

theorem returned_path_is_cycle_free:
  "cycle_free (breadthFirstSearch g running start goal) \<and>
   cycle_free (depthFirstSearch g running start goal) \<and>
   cycle_free (uniformCostSearch g running start goal) \<and>
   cycle_free (depthLimitedSearch g running start goal depthLimit) \<and>
   cycle_free (iterativeDeepeningSearch g running start goal) \<and>
   cycle_free (bidirectionalSearch g running start gl) \<and>
   cycle_free (greedyBestFirstSearch g running start goal) \<and>
   cycle_free (aStarSearch g running start goal)"
  by (intro conjI sound_cycle_free [OF strategies_sound(1)] sound_cycle_free [OF strategies_sound(2)]
        sound_cycle_free [OF strategies_sound(3)] sound_cycle_free [OF strategies_sound(4)]
        sound_cycle_free [OF strategies_sound(5)] sound_cycle_free [OF strategies_sound(6)]
        sound_cycle_free [OF strategies_sound(7)] sound_cycle_free [OF strategies_sound(8)])

theorem returned_path_is_cycle_free_witness:
  "success (fst (bidirectionalSearch fixture (\<lambda>k. True) ''B'' ''A'')) \<and>
   (\<exists>p. rpath (fst (bidirectionalSearch fixture (\<lambda>k. True) ''B'' ''A'')) = Some p \<and>
        distinct p) \<and>
   success (fst (depthFirstSearch fixture (\<lambda>k. True) ''A'' (Single ''C''))) \<and>
   (\<exists>p. rpath (fst (depthFirstSearch fixture (\<lambda>k. True) ''A'' (Single ''C''))) = Some p \<and>
        distinct p)"
proof -
  have 1: "success (fst (bidirectionalSearch fixture (\<lambda>k. True) ''B'' ''A''))"
    by code_simp
  have 2: "success (fst (depthFirstSearch fixture (\<lambda>k. True) ''A'' (Single ''C'')))"
    by code_simp
  show ?thesis
    using 1 2
      returned_path_is_cycle_free [of fixture "\<lambda>k. True" "''A''" "Single ''C''" 0 "''A''"]
      returned_path_is_cycle_free [of fixture "\<lambda>k. True" "''B''" "Single ''C''" 0 "''A''"]
    by (simp add: cycle_free_def)
qed

section \<open>Cheapest paths\<close>

lemma neighbors_of_link:
  "(x, d) \<in> set (neighbors_of ls v) \<Longrightarrow>
   \<exists>l \<in> set ls. distance l = d \<and>
     ((source l = v \<and> target l = x) \<or> (target l = v \<and> source l = x))"
  by (induction ls) (auto split: if_splits)

lemma neighbor_nonnegative:
  assumes "nonnegative g" and "(x, d) \<in> set (getNeighbors g v)"
  shows "0 \<le> d"
proof -
  obtain l where "l \<in> set (links g)" "distance l = d"
    using neighbors_of_link [of x d "links g" v] assms(2) unfolding getNeighbors_def by blast
  then show ?thesis using assms(1) unfolding nonnegative_def by blast
qed

lemma pwalk_nonnegative:
  assumes "nonnegative g" and "pwalk g start p c"
  shows "0 \<le> c"
  using assms(2)
proof (induction rule: pwalk.induct)
  case start
  show ?case by simp
next
  case (step p c x d)
  then show ?case using neighbor_nonnegative [OF assms(1) step.hyps(2)] by simp
qed

lemma frontier_cut:
  assumes inv: "opt_inv g start goal T V" and nn: "nonnegative g"
    and w: "pwalk g start p c" and nv: "last p \<notin> V"
  shows "\<exists>e \<in> T. snd (snd e) \<le> c"
  using w nv
proof (induction rule: pwalk.induct)
  case start
  then show ?case using inv unfolding opt_inv_def by auto
next
  case (step p c x d)
  show ?case
  proof (cases "last p \<in> V")
    case True
    then obtain e where "e \<in> T" "fst e = x" "snd (snd e) \<le> c + d"
      using inv step.hyps step.prems unfolding opt_inv_def by (metis last_snoc)
    then show ?thesis by auto
  next
    case False
    then obtain e where e: "e \<in> T" "snd (snd e) \<le> c"
      using step.IH by blast
    have "0 \<le> d" by (rule neighbor_nonnegative [OF nn step.hyps(2)])
    then have "snd (snd e) \<le> c + d" using e(2) by simp
    then show ?thesis using e(1) by auto
  qed
qed

lemma pop_optimal:
  assumes inv: "opt_inv g start goal T V" and nn: "nonnegative g"
    and least: "\<forall>e' \<in> T. snd (snd e) \<le> snd (snd e')" and nv: "fst e \<notin> V"
    and w: "pwalk g start p c" "last p = fst e"
  shows "snd (snd e) \<le> c"
proof -
  obtain e' where "e' \<in> T" "snd (snd e') \<le> c"
    using frontier_cut [OF inv nn w(1)] nv w(2) by auto
  then show ?thesis using least by force
qed

lemma opt_inv_stale:
  assumes inv: "opt_inv g start goal T V" and sub: "T' \<subseteq> T"
    and keep: "\<forall>e \<in> T. fst e \<notin> V \<longrightarrow> e \<in> T'"
  shows "opt_inv g start goal T' V"
  unfolding opt_inv_def
proof (intro conjI)
  show "\<forall>e\<in>T'. pwalk g start (fst (snd e)) (snd (snd e)) \<and> last (fst (snd e)) = fst e"
    using inv sub unfolding opt_inv_def by blast
  show "start \<in> V \<or> (\<exists>e\<in>T'. fst e = start \<and> snd (snd e) \<le> 0)"
    using inv keep unfolding opt_inv_def by metis
  show "\<forall>v\<in>V. \<not> isGoalNode v goal" using inv unfolding opt_inv_def by simp
  show "\<forall>p c x d. pwalk g start p c \<and> last p \<in> V \<and> (x, d) \<in> set (getNeighbors g (last p)) \<longrightarrow>
          x \<in> V \<or> (\<exists>e\<in>T'. fst e = x \<and> snd (snd e) \<le> c + d)"
  proof (intro allI impI)
    fix p c x d
    assume a: "pwalk g start p c \<and> last p \<in> V \<and> (x, d) \<in> set (getNeighbors g (last p))"
    then have "x \<in> V \<or> (\<exists>e\<in>T. fst e = x \<and> snd (snd e) \<le> c + d)"
      using inv unfolding opt_inv_def by blast
    then show "x \<in> V \<or> (\<exists>e\<in>T'. fst e = x \<and> snd (snd e) \<le> c + d)"
      using keep by metis
  qed
qed

lemma opt_inv_expand:
  assumes inv: "opt_inv g start goal T V" and nn: "nonnegative g"
    and e: "e \<in> T" and least: "\<forall>e' \<in> T. snd (snd e) \<le> snd (snd e')" and nv: "fst e \<notin> V"
    and ng: "\<not> isGoalNode (fst e) goal"
    and T2: "T2 = T' \<union> (\<lambda>nb. (fst nb, fst (snd e) @ [fst nb], snd (snd e) + snd nb)) `
                     {nb \<in> set (getNeighbors g (fst e)). fst nb \<notin> insert (fst e) V}"
    and sub: "T' \<subseteq> T" and keep: "\<forall>e' \<in> T. fst e' \<notin> insert (fst e) V \<longrightarrow> e' \<in> T'"
  shows "opt_inv g start goal T2 (insert (fst e) V)"
  unfolding opt_inv_def
proof (intro conjI)
  have ew: "pwalk g start (fst (snd e)) (snd (snd e))" "last (fst (snd e)) = fst e"
    using inv e unfolding opt_inv_def by blast+
  show "\<forall>e'\<in>T2. pwalk g start (fst (snd e')) (snd (snd e')) \<and> last (fst (snd e')) = fst e'"
  proof
    fix e' assume "e' \<in> T2"
    then consider "e' \<in> T'"
      | nb where "nb \<in> set (getNeighbors g (fst e))"
          "e' = (fst nb, fst (snd e) @ [fst nb], snd (snd e) + snd nb)"
      unfolding T2 by auto
    then show "pwalk g start (fst (snd e')) (snd (snd e')) \<and> last (fst (snd e')) = fst e'"
    proof cases
      case 1
      then show ?thesis using inv sub unfolding opt_inv_def by blast
    next
      case 2
      have "(fst nb, snd nb) \<in> set (getNeighbors g (last (fst (snd e))))"
        using 2(1) ew(2) by simp
      from pwalk.step [OF ew(1) this] show ?thesis unfolding 2(2) by simp
    qed
  qed
  show "start \<in> insert (fst e) V \<or> (\<exists>e'\<in>T2. fst e' = start \<and> snd (snd e') \<le> 0)"
  proof (cases "start \<in> insert (fst e) V")
    case False
    then obtain e' where "e' \<in> T" "fst e' = start" "snd (snd e') \<le> 0"
      using inv unfolding opt_inv_def by auto
    then have "e' \<in> T2" using keep False unfolding T2 by auto
    then show ?thesis using \<open>fst e' = start\<close> \<open>snd (snd e') \<le> 0\<close> by blast
  qed simp
  show "\<forall>v\<in>insert (fst e) V. \<not> isGoalNode v goal"
    using inv ng unfolding opt_inv_def by auto
  show "\<forall>p c x d. pwalk g start p c \<and> last p \<in> insert (fst e) V \<and>
                  (x, d) \<in> set (getNeighbors g (last p)) \<longrightarrow>
          x \<in> insert (fst e) V \<or> (\<exists>e'\<in>T2. fst e' = x \<and> snd (snd e') \<le> c + d)"
  proof (intro allI impI)
    fix p c x d
    assume a: "pwalk g start p c \<and> last p \<in> insert (fst e) V \<and>
               (x, d) \<in> set (getNeighbors g (last p))"
    show "x \<in> insert (fst e) V \<or> (\<exists>e'\<in>T2. fst e' = x \<and> snd (snd e') \<le> c + d)"
    proof (cases "x \<in> insert (fst e) V")
      case nx: False
      show ?thesis
      proof (cases "last p = fst e")
        case True
        have "snd (snd e) \<le> c"
          using pop_optimal [OF inv nn least nv] a True by blast
        moreover have "(x, fst (snd e) @ [x], snd (snd e) + d) \<in> T2"
          unfolding T2 using a True nx by force
        ultimately show ?thesis by force
      next
        case False
        then have "last p \<in> V" using a by simp
        then obtain e' where e': "e' \<in> T" "fst e' = x" "snd (snd e') \<le> c + d"
          using inv a nx unfolding opt_inv_def by (metis insertCI)
        then have "e' \<in> T2" using keep nx unfolding T2 by auto
        then show ?thesis using e'(2,3) by blast
      qed
    qed simp
  qed
qed

lemma pop_frontier:
  assumes "F \<noteq> []" and "hd (sort_key key F) = e"
  shows "e \<in> set F" and "\<forall>e' \<in> set F. key e \<le> key e'"
    and "set (tl (sort_key key F)) \<subseteq> set F"
    and "\<forall>e' \<in> set F. e' \<noteq> e \<longrightarrow> e' \<in> set (tl (sort_key key F))"
proof -
  have ne: "sort_key key F \<noteq> []" using assms(1) by (cases F) auto
  then have split: "sort_key key F = e # tl (sort_key key F)"
    using assms(2) by (cases "sort_key key F") auto
  have all: "set F = insert e (set (tl (sort_key key F)))"
    using arg_cong [OF split, of set] by simp
  show "e \<in> set F" using all by simp
  show "set (tl (sort_key key F)) \<subseteq> set F" using all by auto
  show "\<forall>e' \<in> set F. e' \<noteq> e \<longrightarrow> e' \<in> set (tl (sort_key key F))" using all by auto
  have "sorted (map key (e # tl (sort_key key F)))"
    using sorted_sort_key [of key F] split by simp
  then have "\<forall>x \<in> set (tl (sort_key key F)). key e \<le> key x" by simp
  then show "\<forall>e' \<in> set F. key e \<le> key e'" using all by auto
qed

lemma ucs_loop_optimal:
  assumes inv: "opt_inv g start goal (set frontier) visited"
    and nn: "nonnegative g"
    and reach: "pwalk g start pt ct" "isGoalNode (last pt) goal"
    and flag: "\<And>k. running k"
  shows "optimal_result g start goal (uniformCostSearch_loop g running goal frontier visited st)"
proof (rule ucs_loop_rule [where I = "\<lambda>F V s. opt_inv g start goal (set F) V"
        and Q = "optimal_result g start goal"], goal_cases)
  case 1
  show ?case by (rule inv)
next
  case (2 F V s c p k)
  note pop = pop_frontier [OF 2(2) 2(4)]
  show ?case
  proof (rule opt_inv_stale [OF 2(1) pop(3)], intro ballI impI)
    fix e assume "e \<in> set F" "fst e \<notin> V"
    then have "e \<noteq> (c, p, k)" using 2(5) by auto
    then show "e \<in> set (tl (sort_key (\<lambda>(n, p, c). c) F))" using pop(4) \<open>e \<in> set F\<close> by blast
  qed
next
  case (3 F V s c p k F2 s2)
  note pop = pop_frontier [OF 3(2) 3(4)]
  let ?T' = "set (tl (sort_key (\<lambda>(n, p, c). c) F))"
  have F2: "F2 = tl (sort_key (\<lambda>(n, p, c). c) F) @
                 map (\<lambda>nb. (fst nb, p @ [fst nb], k + snd nb))
                   (filter (\<lambda>nb. fst nb \<notin> insert c V) (getNeighbors g c))"
    using ucs_push_frontier [of p k "insert c V" "getNeighbors g c"
        "tl (sort_key (\<lambda>(n, p, c). c) F)" "explore c (read_flag s)"] 3(7) by simp
  have least: "\<forall>e' \<in> set F. snd (snd (c, p, k)) \<le> snd (snd e')"
    using pop(2) by (auto simp: case_prod_beta)
  have keep: "\<forall>e' \<in> set F. fst e' \<notin> insert (fst (c, p, k)) V \<longrightarrow> e' \<in> ?T'"
  proof (intro ballI impI)
    fix e assume "e \<in> set F" "fst e \<notin> insert (fst (c, p, k)) V"
    then have "e \<noteq> (c, p, k)" by auto
    then show "e \<in> ?T'" using pop(4) \<open>e \<in> set F\<close> by blast
  qed
  have "opt_inv g start goal (set F2) (insert (fst (c, p, k)) V)"
  proof (rule opt_inv_expand [OF 3(1) nn pop(1) least _ _ _ pop(3) keep])
    show "fst (c, p, k) \<notin> V" using 3(5) by simp
    show "\<not> isGoalNode (fst (c, p, k)) goal" using 3(6) by simp
    show "set F2 = ?T' \<union> (\<lambda>nb. (fst nb, fst (snd (c, p, k)) @ [fst nb],
                                 snd (snd (c, p, k)) + snd nb)) `
             {nb \<in> set (getNeighbors g (fst (c, p, k))). fst nb \<notin> insert (fst (c, p, k)) V}"
      unfolding F2 by auto
  qed
  then show ?case by simp
next
  case (4 V s)
  have "last pt \<notin> V" using 4 reach(2) unfolding opt_inv_def by blast
  from frontier_cut [OF 4 nn reach(1) this] show ?case by simp
next
  case (5 F V s)
  then show ?case using flag by simp
next
  case (6 F V s c p k)
  note pop = pop_frontier [OF 6(2) 6(4)]
  have w: "pwalk g start p k" "last p = c"
    using 6(1) pop(1) unfolding opt_inv_def by force+
  have best: "k \<le> c'" if a: "pwalk g start p' c'" "isGoalNode (last p') goal" for p' c'
  proof -
    have "last p' \<notin> V" using 6(1) a(2) unfolding opt_inv_def by blast
    from frontier_cut [OF 6(1) nn a(1) this]
    obtain e where e: "e \<in> set F" "snd (snd e) \<le> c'" by blast
    have "(case (c, p, k) of (n, p, c) \<Rightarrow> c) \<le> (case e of (n, p, c) \<Rightarrow> c)"
      using pop(2) e(1) by blast
    then have "k \<le> snd (snd e)" by (simp add: case_prod_beta)
    then show ?thesis using e(2) by simp
  qed
  show ?case unfolding optimal_result_def found_def
    using w 6(6) best by auto
qed

lemma opt_inv_start: "opt_inv g start goal {(start, [start], 0)} {}"
  unfolding opt_inv_def by (simp add: pwalk.start)

lemma uniformCostSearch_optimal:
  assumes "nonnegative g" and "pwalk g start pt ct" "isGoalNode (last pt) goal"
    and "\<And>k. running k"
  shows "optimal_result g start goal (uniformCostSearch g running start goal)"
  unfolding uniformCostSearch_def
  by (rule ucs_loop_optimal [OF _ assms]) (simp add: opt_inv_start)

lemma haversine_same: "lat a = lat b \<Longrightarrow> lon a = lon b \<Longrightarrow> haversine a b = 0"
  by (simp add: haversine_def atan2_def)

lemma sin_quarter_squared: "sin (pi / 4) * sin (pi / 4) = (1 / 2 :: real)"
proof -
  have "sin (pi / 4) * sin (pi / 4) = (sqrt 2 / 2) * (sqrt 2 / 2)" by (simp add: sin_45)
  also have "\<dots> = (sqrt 2 * sqrt 2) / 4" by simp
  also have "\<dots> = 1 / 2" by simp
  finally show ?thesis .
qed

lemma haversine_quarter:
  "haversine \<lparr>node_id = a, lat = 0, lon = 90\<rparr> \<lparr>node_id = b, lat = 0, lon = 0\<rparr> = 6371 * (pi / 2)"
proof -
  have a: "sin ((0 * pi / 180 - 0 * pi / 180) / 2) * sin ((0 * pi / 180 - 0 * pi / 180) / 2) +
           cos (0 * pi / 180) * cos (0 * pi / 180) *
           sin ((0 * pi / 180 - 90 * pi / 180) / 2) * sin ((0 * pi / 180 - 90 * pi / 180) / 2) =
           (1 / 2 :: real)"
    using sin_quarter_squared by simp
  have pos: "0 < sqrt (1 / 2 :: real)" by simp
  have at: "atan2 (sqrt (1 / 2)) (sqrt (1 - 1 / 2)) = pi / 4"
    unfolding atan2_def using pos by (simp add: arctan_one)
  show ?thesis
    unfolding haversine_def Let_def node.select_convs a at by simp
qed

lemma shortcut_links:
  "links shortcut = [\<lparr>source = ''S'', target = ''A'', distance = 1\<rparr>,
                     \<lparr>source = ''S'', target = ''B'', distance = 3\<rparr>,
                     \<lparr>source = ''A'', target = ''B'', distance = 1\<rparr>,
                     \<lparr>source = ''B'', target = ''G'', distance = 30000\<rparr>]"
  by (simp add: shortcut_def)

lemma shortcut_cities: "node_id ` set (nodes shortcut) = {''S'', ''A'', ''B'', ''G''}"
  by (simp add: shortcut_def)

lemma shortcut_neighbors:
  "getNeighbors shortcut ''S'' = [(''A'', 1), (''B'', 3)]"
  "getNeighbors shortcut ''A'' = [(''S'', 1), (''B'', 1)]"
  "getNeighbors shortcut ''B'' = [(''S'', 3), (''A'', 1), (''G'', 30000)]"
  "getNeighbors shortcut ''G'' = [(''B'', 30000)]"
  by (simp_all add: getNeighbors_def shortcut_links)

lemma shortcut_heuristic:
  "heuristicToGoalOrGoals shortcut ''S'' (Single ''G'') = Fin 0"
  "heuristicToGoalOrGoals shortcut ''A'' (Single ''G'') = Fin (6371 * (pi / 2))"
  "heuristicToGoalOrGoals shortcut ''B'' (Single ''G'') = Fin 0"
  "heuristicToGoalOrGoals shortcut ''G'' (Single ''G'') = Fin 0"
  by (simp_all add: heuristicToGoalOrGoals_def calculateStraightLineDistance_def getNodeById_def
        shortcut_def haversine_same haversine_quarter)

lemma shortcut_nonnegative: "nonnegative shortcut"
  by (simp add: nonnegative_def shortcut_links)

lemma quarter_bounds: "3 < 6371 * (pi / 2)" "6371 * (pi / 2) < 29000"
  using pi_ge_two pi_less_4 by simp_all

lemma shortcut_walks:
  "pwalk shortcut ''S'' [''S'', ''A'', ''B'', ''G''] 30002"
  "pwalk shortcut ''S'' [''S'', ''B'', ''G''] 30003"
  "pwalk shortcut ''A'' [''A'', ''B'', ''G''] 30001"
proof -
  have "pwalk shortcut ''S'' ([''S''] @ [''A'']) (0 + 1)"
    by (rule pwalk.step [OF pwalk.start]) (simp add: shortcut_neighbors)
  then have "pwalk shortcut ''S'' (([''S''] @ [''A'']) @ [''B'']) (0 + 1 + 1)"
    by (rule pwalk.step) (simp add: shortcut_neighbors)
  then have "pwalk shortcut ''S'' ((([''S''] @ [''A'']) @ [''B'']) @ [''G'']) (0 + 1 + 1 + 30000)"
    by (rule pwalk.step) (simp add: shortcut_neighbors)
  then show "pwalk shortcut ''S'' [''S'', ''A'', ''B'', ''G''] 30002" by simp
  have "pwalk shortcut ''S'' ([''S''] @ [''B'']) (0 + 3)"
    by (rule pwalk.step [OF pwalk.start]) (simp add: shortcut_neighbors)
  then have "pwalk shortcut ''S'' (([''S''] @ [''B'']) @ [''G'']) (0 + 3 + 30000)"
    by (rule pwalk.step) (simp add: shortcut_neighbors)
  then show "pwalk shortcut ''S'' [''S'', ''B'', ''G''] 30003" by simp
  have "pwalk shortcut ''A'' ([''A''] @ [''B'']) (0 + 1)"
    by (rule pwalk.step [OF pwalk.start]) (simp add: shortcut_neighbors)
  then have "pwalk shortcut ''A'' (([''A''] @ [''B'']) @ [''G'']) (0 + 1 + 30000)"
    by (rule pwalk.step) (simp add: shortcut_neighbors)
  then show "pwalk shortcut ''A'' [''A'', ''B'', ''G''] 30001" by simp
qed

lemma shortcut_last_link:
  assumes "pwalk shortcut n p c" and "last p = ''G''" and "n \<noteq> ''G''"
  shows "30000 \<le> c"
  using assms(1)
proof (cases rule: pwalk.cases)
  case start
  then show ?thesis using assms(2,3) by simp
next
  case (step p' c' x d)
  have x: "x = ''G''" using step(1) assms(2) by simp
  obtain l where l: "l \<in> set (links shortcut)" "distance l = d"
    "(source l = last p' \<and> target l = x) \<or> (target l = last p' \<and> source l = x)"
    using neighbors_of_link [of x d "links shortcut" "last p'"] step(4)
    unfolding getNeighbors_def by blast
  have "d = 30000" using l unfolding x shortcut_links by auto
  moreover have "0 \<le> c'" by (rule pwalk_nonnegative [OF shortcut_nonnegative step(3)])
  ultimately show ?thesis using step(2) by simp
qed

lemma shortcut_admissible: "admissible shortcut (Single ''G'')"
  unfolding admissible_def shortcut_cities
proof (intro ballI allI impI)
  fix n p c
  assume n: "n \<in> {''S'', ''A'', ''B'', ''G''}"
    and w: "pwalk shortcut n p c \<and> isGoalNode (last p) (Single ''G'')"
  have c0: "0 \<le> c" using pwalk_nonnegative [OF shortcut_nonnegative] w by blast
  show "heuristicToGoalOrGoals shortcut n (Single ''G'') \<le> Fin c"
  proof (cases "n = ''A''")
    case True
    have "30000 \<le> c" using shortcut_last_link [of n p c] w True by (simp add: isGoalNode_def)
    then show ?thesis unfolding True shortcut_heuristic using quarter_bounds(2) by simp
  next
    case False
    then show ?thesis using n c0 by (auto simp: shortcut_heuristic)
  qed
qed

lemma shortcut_aStarSearch:
  "\<exists>st. aStarSearch shortcut (\<lambda>k. True) ''S'' (Single ''G'') =
     found st [''S'', ''B'', ''G''] 30003 (reachedGoalFromPath [''S'', ''B'', ''G''])"
  unfolding aStarSearch_def
  using quarter_bounds
  apply (subst aStarSearch_loop.simps)
  apply (simp add: shortcut_heuristic shortcut_neighbors isGoalNode_def start_run_def
      read_flag_def explore_def emit_def Let_def)
  apply (subst aStarSearch_loop.simps)
  apply (simp add: shortcut_heuristic shortcut_neighbors isGoalNode_def start_run_def
      read_flag_def explore_def emit_def Let_def)
  apply (subst aStarSearch_loop.simps)
  apply (simp add: shortcut_heuristic shortcut_neighbors isGoalNode_def start_run_def
      read_flag_def explore_def emit_def Let_def)
  apply (subst aStarSearch_loop.simps)
  apply (simp add: shortcut_heuristic shortcut_neighbors isGoalNode_def start_run_def
      read_flag_def explore_def emit_def Let_def)
  apply (subst aStarSearch_loop.simps)
  apply (simp add: shortcut_heuristic shortcut_neighbors isGoalNode_def start_run_def
      read_flag_def explore_def emit_def Let_def)
  apply (rule exI)
  apply (rule refl)
  done

text \<open>C1, the code at a failing input. On the graph \<open>shortcut\<close> the distances are not
  negative and the straight-line heuristic is admissible. Uniform-cost search from S to G
  returns the path S, A, B, G with the cost 30002, and no path from S to G costs less
  (uniform-cost search returns a cheapest path on every graph with non-negative
  distances, lemma \<open>uniformCostSearch_optimal\<close>). A* returns the path S, B, G with the
  cost 30003: it takes B from the frontier with the cost 3 before A, because the heuristic
  at A is large, marks B as visited, and never replaces the path to B by the cheaper one
  through A that it finds afterwards. The heuristic values on this graph are 0 and about
  10007.5, and every comparison made by the sort is between numbers that differ by more
  than 1, so that the rounding of the JavaScript arithmetic does not change the order.\<close>

theorem aStarSearch_returns_dearer_path_with_admissible_heuristic:
  "nonnegative shortcut \<and> admissible shortcut (Single ''G'') \<and>
   rpath (fst (uniformCostSearch shortcut (\<lambda>k. True) ''S'' (Single ''G''))) =
     Some [''S'', ''A'', ''B'', ''G''] \<and>
   rcost (fst (uniformCostSearch shortcut (\<lambda>k. True) ''S'' (Single ''G''))) = Some 30002 \<and>
   optimal_result shortcut ''S'' (Single ''G'')
     (uniformCostSearch shortcut (\<lambda>k. True) ''S'' (Single ''G'')) \<and>
   success (fst (aStarSearch shortcut (\<lambda>k. True) ''S'' (Single ''G''))) \<and>
   rpath (fst (aStarSearch shortcut (\<lambda>k. True) ''S'' (Single ''G''))) =
     Some [''S'', ''B'', ''G''] \<and>
   rcost (fst (aStarSearch shortcut (\<lambda>k. True) ''S'' (Single ''G''))) = Some 30003 \<and>
   \<not> optimal_result shortcut ''S'' (Single ''G'')
       (aStarSearch shortcut (\<lambda>k. True) ''S'' (Single ''G''))"
proof -
  have u1: "rpath (fst (uniformCostSearch shortcut (\<lambda>k. True) ''S'' (Single ''G''))) =
              Some [''S'', ''A'', ''B'', ''G'']"
    by code_simp
  have u2: "rcost (fst (uniformCostSearch shortcut (\<lambda>k. True) ''S'' (Single ''G''))) = Some 30002"
    by code_simp
  have u3: "optimal_result shortcut ''S'' (Single ''G'')
              (uniformCostSearch shortcut (\<lambda>k. True) ''S'' (Single ''G''))"
    by (rule uniformCostSearch_optimal [OF shortcut_nonnegative shortcut_walks(1)])
       (simp_all add: isGoalNode_def)
  obtain st where a: "aStarSearch shortcut (\<lambda>k. True) ''S'' (Single ''G'') =
      found st [''S'', ''B'', ''G''] 30003 (reachedGoalFromPath [''S'', ''B'', ''G''])"
    using shortcut_aStarSearch by blast
  have a123: "success (fst (aStarSearch shortcut (\<lambda>k. True) ''S'' (Single ''G'')))"
    "rpath (fst (aStarSearch shortcut (\<lambda>k. True) ''S'' (Single ''G''))) =
       Some [''S'', ''B'', ''G'']"
    "rcost (fst (aStarSearch shortcut (\<lambda>k. True) ''S'' (Single ''G''))) = Some 30003"
    unfolding a by (simp_all add: found_def)
  have a4: "\<not> optimal_result shortcut ''S'' (Single ''G'')
           (aStarSearch shortcut (\<lambda>k. True) ''S'' (Single ''G''))"
  proof
    assume "optimal_result shortcut ''S'' (Single ''G'')
              (aStarSearch shortcut (\<lambda>k. True) ''S'' (Single ''G''))"
    then have "\<forall>p' c'. pwalk shortcut ''S'' p' c' \<and> isGoalNode (last p') (Single ''G'') \<longrightarrow>
                       (30003::real) \<le> c'"
      unfolding optimal_result_def using a123 by simp
    then have "pwalk shortcut ''S'' [''S'', ''A'', ''B'', ''G''] 30002 \<and>
               isGoalNode (last [''S'', ''A'', ''B'', ''G'']) (Single ''G'') \<longrightarrow>
               (30003::real) \<le> 30002"
      by blast
    then have "(30003::real) \<le> 30002" using shortcut_walks(1) by (simp add: isGoalNode_def)
    then show False by simp
  qed
  show ?thesis
    using shortcut_nonnegative shortcut_admissible u1 u2 u3 a123 a4 by simp
qed

theorem aStarSearch_returns_dearer_path_with_admissible_heuristic_witness:
  "''A'' \<in> node_id ` set (nodes shortcut) \<and>
   pwalk shortcut ''A'' [''A'', ''B'', ''G''] 30001 \<and>
   isGoalNode (last [''A'', ''B'', ''G'']) (Single ''G'') \<and>
   heuristicToGoalOrGoals shortcut ''A'' (Single ''G'') \<le> Fin 30001 \<and>
   heuristicToGoalOrGoals shortcut ''A'' (Single ''G'') = Fin (6371 * (pi / 2)) \<and>
   \<not> heuristicToGoalOrGoals shortcut ''A'' (Single ''G'') \<le>
       add_num 1 (heuristicToGoalOrGoals shortcut ''B'' (Single ''G''))"
proof -
  note adm = aStarSearch_returns_dearer_path_with_admissible_heuristic
               [THEN conjunct2, THEN conjunct1, unfolded admissible_def, rule_format]
  have inA: "''A'' \<in> node_id ` set (nodes shortcut)" by (simp add: shortcut_cities)
  have w: "pwalk shortcut ''A'' [''A'', ''B'', ''G''] 30001 \<and>
           isGoalNode (last [''A'', ''B'', ''G'']) (Single ''G'')"
    using shortcut_walks(3) by (simp add: isGoalNode_def)
  have "heuristicToGoalOrGoals shortcut ''A'' (Single ''G'') \<le> Fin 30001"
    by (rule adm [OF inA w])
  then show ?thesis
    using inA w quarter_bounds(1) by (simp add: shortcut_heuristic)
qed

end
